theory Spec2Isabelle
  imports Complex_Main "HOL-Library.AList"
begin

section \<open>Data model of \<open>src/backend/main.py\<close>\<close>

text \<open>
  The tables of the SQLAlchemy models are lists of rows, in insertion order. Columns the
  modelled handlers never read (\<open>created_at\<close>, \<open>joined_at\<close>, the surrogate \<open>id\<close> of
  \<open>GroupMember\<close> and \<open>ExpenseSplit\<close>) are left out. Python's \<open>float\<close> columns are
  rationals with exact arithmetic, as section 3 of the specification asks of amounts
  (a decimal, not a raw binary float).
\<close>

datatype SplitType = EQUAL | PERCENTAGE

record User =
  u_id :: int
  u_name :: string
  u_email :: string

record Group =
  g_id :: int
  g_name :: string

record GroupMember =
  gm_group_id :: int
  gm_user_id :: int

record Expense =
  e_id :: int
  e_description :: string
  e_amount :: rat
  e_group_id :: int
  e_paid_by :: int
  e_split_type :: SplitType

record ExpenseSplit =
  s_expense_id :: int
  s_user_id :: int
  s_amount :: rat
  s_percentage :: "rat option"

record db =
  tbl_users :: "User list"
  tbl_groups :: "Group list"
  tbl_group_members :: "GroupMember list"
  tbl_expenses :: "Expense list"
  tbl_expense_splits :: "ExpenseSplit list"

text \<open>The request bodies \<open>ExpenseSplitCreate\<close> and \<open>ExpenseCreate\<close>.\<close>

record ExpenseSplitCreate =
  sc_user_id :: int
  sc_percentage :: "rat option"

record ExpenseCreate =
  ec_description :: string
  ec_amount :: rat
  ec_paid_by :: int
  ec_split_type :: SplitType
  ec_splits :: "ExpenseSplitCreate list"

text \<open>
  What a handler can raise: an \<open>HTTPException\<close> with its status code and detail, or a
  Python exception that escapes the handler.
\<close>

datatype error =
  HTTPException nat string
  | TypeError
  | ZeroDivisionError
  | KeyError

section \<open>Queries\<close>

text \<open>\<open>db.query(Group).filter(Group.id == group_id).first()\<close>\<close>

definition query_group :: "int \<Rightarrow> db \<Rightarrow> Group option" where
  "query_group group_id d = find (\<lambda>g. g_id g = group_id) (tbl_groups d)"

text \<open>
  \<open>db.query(User).join(GroupMember).filter(GroupMember.group_id == group_id)\<close>: the users
  that have a membership row of the group. The ORM returns each \<open>User\<close> entity once.
\<close>

definition is_member :: "db \<Rightarrow> int \<Rightarrow> int \<Rightarrow> bool" where
  "is_member d group_id uid =
     list_ex (\<lambda>m. gm_group_id m = group_id \<and> gm_user_id m = uid) (tbl_group_members d)"

definition query_group_users :: "int \<Rightarrow> db \<Rightarrow> User list" where
  "query_group_users group_id d = filter (\<lambda>u. is_member d group_id (u_id u)) (tbl_users d)"

text \<open>The same query with \<open>User.id == expense.paid_by\<close> added, and \<open>.first()\<close>.\<close>

definition query_paid_by_user :: "int \<Rightarrow> int \<Rightarrow> db \<Rightarrow> User option" where
  "query_paid_by_user group_id paid_by d =
     find (\<lambda>u. u_id u = paid_by) (query_group_users group_id d)"

text \<open>\<open>db.query(GroupMember).filter(GroupMember.group_id == group_id).all()\<close>\<close>

definition query_members :: "int \<Rightarrow> db \<Rightarrow> GroupMember list" where
  "query_members group_id d = filter (\<lambda>m. gm_group_id m = group_id) (tbl_group_members d)"

text \<open>\<open>db.query(Expense).filter(Expense.group_id == group_id).all()\<close>\<close>

definition query_expenses :: "int \<Rightarrow> db \<Rightarrow> Expense list" where
  "query_expenses group_id d = filter (\<lambda>e. e_group_id e = group_id) (tbl_expenses d)"

text \<open>\<open>db.query(ExpenseSplit).join(Expense).filter(Expense.group_id == group_id).all()\<close>\<close>

definition query_splits :: "int \<Rightarrow> db \<Rightarrow> ExpenseSplit list" where
  "query_splits group_id d =
     filter (\<lambda>s. list_ex (\<lambda>e. e_id e = s_expense_id s \<and> e_group_id e = group_id) (tbl_expenses d))
       (tbl_expense_splits d)"

section \<open>\<open>add_expense\<close>\<close>

text \<open>
  The primary key the database gives the new expense row on \<open>db.commit()\<close>: one more
  than the largest key in the table.
\<close>

definition next_expense_id :: "db \<Rightarrow> int" where
  "next_expense_id d = fold max (map e_id (tbl_expenses d)) 0 + 1"

text \<open>\<open>sum(split.percentage or 0 for split in expense.splits)\<close>\<close>

definition total_percentage :: "ExpenseSplitCreate list \<Rightarrow> rat" where
  "total_percentage splits =
     sum_list (map (\<lambda>split. case sc_percentage split of None \<Rightarrow> 0 | Some p \<Rightarrow> p) splits)"

text \<open>
  The loop of the \<open>else\<close> branch (lines 343 to 351). \<open>split_data.percentage / 100\<close> raises
  \<open>TypeError\<close> when the percentage is \<open>None\<close>; the rows added before are pending in the
  session and are lost with it.
\<close>

fun percentage_splits :: "int \<Rightarrow> rat \<Rightarrow> ExpenseSplitCreate list \<Rightarrow> error + ExpenseSplit list" where
  "percentage_splits expense_id amount [] = Inr []"
| "percentage_splits expense_id amount (split_data # rest) =
     (case sc_percentage split_data of
        None \<Rightarrow> Inl TypeError
      | Some p \<Rightarrow>
          (case percentage_splits expense_id amount rest of
             Inl e \<Rightarrow> Inl e
           | Inr rows \<Rightarrow>
               Inr (\<lparr>s_expense_id = expense_id, s_user_id = sc_user_id split_data,
                     s_amount = amount * (p / 100), s_percentage = Some p\<rparr> # rows)))"

text \<open>
  The rows of the \<open>EQUAL\<close> branch (lines 327 to 339): one per membership row of the group,
  each of \<open>expense.amount / len(members)\<close>; the division raises on an empty list.
\<close>

definition equal_splits :: "int \<Rightarrow> rat \<Rightarrow> GroupMember list \<Rightarrow> error + ExpenseSplit list" where
  "equal_splits expense_id amount members =
     (if length members = 0 then Inl ZeroDivisionError
      else
        (let split_amount = amount / of_nat (length members)
         in Inr (map (\<lambda>member. \<lparr>s_expense_id = expense_id, s_user_id = gm_user_id member,
                                 s_amount = split_amount, s_percentage = None\<rparr>) members)))"

text \<open>
  The handler returns its result and the database as committed when it returns or
  raises. The framework's validation of the request body (\<open>amount\<close> greater than 0) runs
  before the handler and is not part of it. The expense row is committed (line 321) before the split rows are computed;
  the split rows are committed together by the last \<open>db.commit()\<close> (line 354).
\<close>

definition add_expense :: "int \<Rightarrow> ExpenseCreate \<Rightarrow> db \<Rightarrow> (error + Expense) \<times> db" where
  "add_expense group_id expense d =
     (case query_group group_id d of
        None \<Rightarrow> (Inl (HTTPException 404 ''Group not found''), d)
      | Some grp \<Rightarrow>
          (case query_paid_by_user group_id (ec_paid_by expense) d of
             None \<Rightarrow> (Inl (HTTPException 400 ''Paid by user not in group''), d)
           | Some paid_by_user \<Rightarrow>
               if ec_split_type expense = PERCENTAGE
                  \<and> \<bar>total_percentage (ec_splits expense) - 100\<bar> > 1 / 100
               then (Inl (HTTPException 400 ''Percentages must sum to 100''), d)
               else
                 (let db_expense =
                        \<lparr>e_id = next_expense_id d, e_description = ec_description expense,
                         e_amount = ec_amount expense, e_group_id = group_id,
                         e_paid_by = ec_paid_by expense, e_split_type = ec_split_type expense\<rparr>;
                      d1 = d\<lparr>tbl_expenses := tbl_expenses d @ [db_expense]\<rparr>;
                      rows =
                        (if ec_split_type expense = EQUAL
                         then equal_splits (e_id db_expense) (ec_amount expense)
                                (query_members group_id d1)
                         else percentage_splits (e_id db_expense) (ec_amount expense)
                                (ec_splits expense))
                  in case rows of
                       Inl e \<Rightarrow> (Inl e, d1)
                     | Inr new_splits \<Rightarrow>
                         (Inr db_expense,
                          d1\<lparr>tbl_expense_splits := tbl_expense_splits d1 @ new_splits\<rparr>))))"

section \<open>\<open>calculate_group_balances\<close>\<close>

text \<open>
  Python's \<open>round(x, ndigits)\<close>: the nearest multiple of \<open>10 ** -ndigits\<close>, a tie going
  to the even one.
\<close>

definition round_half_even :: "rat \<Rightarrow> int" where
  "round_half_even x =
     (let f = \<lfloor>x\<rfloor>; r = x - of_int f
      in if r < 1 / 2 then f else if 1 / 2 < r then f + 1 else if even f then f else f + 1)"

definition py_round :: "rat \<Rightarrow> nat \<Rightarrow> rat" where
  "py_round x ndigits = of_int (round_half_even (x * 10 ^ ndigits)) / 10 ^ ndigits"

text \<open>
  The values of the \<open>settlements\<close> dict and the rows of the result. A dict is an
  association list in insertion order: \<open>AList.update\<close> replaces the value of a key that
  is present, where it stands, and appends a new key, as a Python dict does.
\<close>

record Settlement =
  owes :: "(int \<times> rat) list"
  owed_by :: "(int \<times> rat) list"

record Balance =
  b_user_id :: int
  b_user_name :: string
  b_owes :: "(int \<times> rat) list"
  b_owed_by :: "(int \<times> rat) list"
  b_net_balance :: rat

text \<open>
  Lines 410 to 419. A \<open>defaultdict(float)\<close> is a total function that is \<open>0\<close> where nothing
  was added.
\<close>

definition user_paid_of :: "Expense list \<Rightarrow> int \<Rightarrow> rat" where
  "user_paid_of es =
     fold (\<lambda>expense user_paid.
             user_paid(e_paid_by expense := user_paid (e_paid_by expense) + e_amount expense))
       es (\<lambda>_. 0)"

definition user_owes_of :: "ExpenseSplit list \<Rightarrow> int \<Rightarrow> rat" where
  "user_owes_of ss =
     fold (\<lambda>split user_owes.
             user_owes(s_user_id split := user_owes (s_user_id split) + s_amount split))
       ss (\<lambda>_. 0)"

text \<open>Lines 426 to 431: the dict \<open>user_net_balances\<close>.\<close>

definition user_net_balances_of :: "User list \<Rightarrow> (int \<Rightarrow> rat) \<Rightarrow> (int \<Rightarrow> rat) \<Rightarrow> (int \<times> rat) list" where
  "user_net_balances_of us user_paid user_owes =
     fold (\<lambda>user nb. AList.update (u_id user) (user_paid (u_id user) - user_owes (u_id user)) nb)
       us []"

text \<open>Lines 435 to 442: the pair \<open>(creditors, debtors)\<close>.\<close>

definition partition_balances :: "(int \<times> rat) list \<Rightarrow> (int \<times> rat) list \<times> (int \<times> rat) list" where
  "partition_balances nb =
     fold (\<lambda>(user_id, net) (creditors, debtors).
             if 0 < py_round net 2 then (creditors @ [(user_id, py_round net 2)], debtors)
             else if py_round net 2 < 0 then (creditors, debtors @ [(user_id, py_round net 2)])
             else (creditors, debtors))
       nb ([], [])"

text \<open>Line 448.\<close>

definition init_settlements :: "User list \<Rightarrow> (int \<times> Settlement) list" where
  "init_settlements us =
     fold (\<lambda>user st. AList.update (u_id user) \<lparr>owes = [], owed_by = []\<rparr> st) us []"

text \<open>
  Lines 460 and 461. \<open>settlements[debtor_id]\<close> raises \<open>KeyError\<close> on a key that is not in
  the dict.
\<close>

definition record_settlement ::
  "(int \<times> Settlement) list \<Rightarrow> int \<Rightarrow> int \<Rightarrow> rat \<Rightarrow> error + (int \<times> Settlement) list" where
  "record_settlement st debtor_id creditor_id settle_amt =
     (case map_of st debtor_id of
        None \<Rightarrow> Inl KeyError
      | Some de \<Rightarrow>
          (let st1 = AList.update debtor_id
                       (de\<lparr>owes := AList.update creditor_id settle_amt (owes de)\<rparr>) st
           in case map_of st1 creditor_id of
                None \<Rightarrow> Inl KeyError
              | Some ce \<Rightarrow>
                  Inr (AList.update creditor_id
                         (ce\<lparr>owed_by := AList.update debtor_id settle_amt (owed_by ce)\<rparr>) st1)))"

text \<open>
  The \<open>while\<close> loop of lines 451 to 474, with the cursors \<open>i\<close> and \<open>j\<close>, the two lists it
  updates in place and the dict it fills.
\<close>

function settle_loop ::
  "nat \<Rightarrow> nat \<Rightarrow> (int \<times> rat) list \<Rightarrow> (int \<times> rat) list \<Rightarrow> (int \<times> Settlement) list
     \<Rightarrow> error + (int \<times> Settlement) list" where
  "settle_loop i j debtors creditors st =
     (if i < length debtors \<and> j < length creditors then
        (let debtor_id = fst (debtors ! i); debtor_amt = snd (debtors ! i);
             creditor_id = fst (creditors ! j); creditor_amt = snd (creditors ! j);
             settle_amt = min (- debtor_amt) creditor_amt
         in case record_settlement st debtor_id creditor_id settle_amt of
              Inl e \<Rightarrow> Inl e
            | Inr st' \<Rightarrow>
                settle_loop
                  (if \<bar>debtor_amt + settle_amt\<bar> < 1 / 100 then i + 1 else i)
                  (if \<bar>creditor_amt - settle_amt\<bar> < 1 / 100 then j + 1 else j)
                  (debtors[i := (debtor_id, debtor_amt + settle_amt)])
                  (creditors[j := (creditor_id, creditor_amt - settle_amt)])
                  st')
      else Inr st)"
  by pat_completeness auto
termination
proof (relation "measure (\<lambda>(i, j, debtors, creditors, st).
                   (length debtors - i) + (length creditors - j))", goal_cases)
  case 1
  show ?case by simp
next
  case (2 i j debtors creditors st debtor_id debtor_amt creditor_id creditor_amt settle_amt st')
  have "debtor_amt + settle_amt = 0 \<or> creditor_amt - settle_amt = 0"
    using 2 by (auto simp: min_def)
  then show ?case using 2 by auto
qed

text \<open>Lines 477 to 486: one row for each user of the group.\<close>

fun build_balances ::
  "User list \<Rightarrow> (int \<times> rat) list \<Rightarrow> (int \<times> Settlement) list \<Rightarrow> error + Balance list" where
  "build_balances [] nb st = Inr []"
| "build_balances (user # rest) nb st =
     (case map_of nb (u_id user) of
        None \<Rightarrow> Inl KeyError
      | Some net_balance \<Rightarrow>
          (case map_of st (u_id user) of
             None \<Rightarrow> Inl KeyError
           | Some entry \<Rightarrow>
               (case build_balances rest nb st of
                  Inl e \<Rightarrow> Inl e
                | Inr balances \<Rightarrow>
                    Inr (\<lparr>b_user_id = u_id user, b_user_name = u_name user,
                          b_owes = owes entry, b_owed_by = owed_by entry,
                          b_net_balance = py_round net_balance 2\<rparr> # balances))))"

definition calculate_group_balances :: "int \<Rightarrow> db \<Rightarrow> error + Balance list" where
  "calculate_group_balances group_id d =
     (let group_expenses = query_expenses group_id d;
          splits = query_splits group_id d;
          user_paid = user_paid_of group_expenses;
          user_owes = user_owes_of splits;
          group_users = query_group_users group_id d;
          user_net_balances = user_net_balances_of group_users user_paid user_owes;
          creditors = fst (partition_balances user_net_balances);
          debtors = snd (partition_balances user_net_balances);
          settlements = init_settlements group_users
      in case settle_loop 0 0 debtors creditors settlements of
           Inl e \<Rightarrow> Inl e
         | Inr settled \<Rightarrow> build_balances group_users user_net_balances settled)"

section \<open>Example data\<close>

text \<open>Four users; the first three are the members of group 1.\<close>

definition example_db :: db where
  "example_db =
     \<lparr>tbl_users = [\<lparr>u_id = 1, u_name = ''A'', u_email = ''a@example.com''\<rparr>,
                   \<lparr>u_id = 2, u_name = ''B'', u_email = ''b@example.com''\<rparr>,
                   \<lparr>u_id = 3, u_name = ''C'', u_email = ''c@example.com''\<rparr>,
                   \<lparr>u_id = 4, u_name = ''D'', u_email = ''d@example.com''\<rparr>],
      tbl_groups = [\<lparr>g_id = 1, g_name = ''Trip''\<rparr>],
      tbl_group_members = [\<lparr>gm_group_id = 1, gm_user_id = 1\<rparr>,
                           \<lparr>gm_group_id = 1, gm_user_id = 2\<rparr>,
                           \<lparr>gm_group_id = 1, gm_user_id = 3\<rparr>],
      tbl_expenses = [], tbl_expense_splits = []\<rparr>"

definition equal_request :: "rat \<Rightarrow> int \<Rightarrow> ExpenseCreate" where
  "equal_request amount paid_by =
     \<lparr>ec_description = ''Dinner'', ec_amount = amount, ec_paid_by = paid_by,
      ec_split_type = EQUAL, ec_splits = []\<rparr>"

definition percentage_request :: "rat \<Rightarrow> int \<Rightarrow> (int \<times> rat option) list \<Rightarrow> ExpenseCreate" where
  "percentage_request amount paid_by ps =
     \<lparr>ec_description = ''Taxi'', ec_amount = amount, ec_paid_by = paid_by,
      ec_split_type = PERCENTAGE,
      ec_splits = map (\<lambda>(u, p). \<lparr>sc_user_id = u, sc_percentage = p\<rparr>) ps\<rparr>"

text \<open>
  The first scenario of section 8 of the specification: A pays 90 and B pays 30, both
  split equally among A, B and C.
\<close>

definition scenario_db :: db where
  "scenario_db =
     snd (add_expense 1 (equal_request 30 2) (snd (add_expense 1 (equal_request 90 1) example_db)))"

text \<open>A pays 10 and assigns the whole of it to D, who is not a member of the group.\<close>

definition outsider_db :: db where
  "outsider_db = snd (add_expense 1 (percentage_request 10 1 [(4, Some 100)]) example_db)"

text \<open>A pays 100, split equally among A, B and C: the rounded balances sum to 0.01.\<close>

definition third_db :: db where
  "third_db = snd (add_expense 1 (equal_request 100 1) example_db)"

text \<open>
  A pays 100 twice and takes 99.9921875 percent of it each time: the percentage passes
  the check of line 309, and each share is within 0.01 of its expense.
\<close>

definition drift_request :: ExpenseCreate where
  "drift_request = percentage_request 100 1 [(1, Some (12799 / 128))]"

definition drift_db :: db where
  "drift_db = snd (add_expense 1 drift_request (snd (add_expense 1 drift_request example_db)))"

text \<open>The scenario with a second group, which has an expense and a share of its own.\<close>

definition two_groups_db :: db where
  "two_groups_db =
     scenario_db
       \<lparr>tbl_groups := tbl_groups scenario_db @ [\<lparr>g_id = 2, g_name = ''Flat''\<rparr>],
        tbl_group_members := tbl_group_members scenario_db @ [\<lparr>gm_group_id = 2, gm_user_id = 4\<rparr>],
        tbl_expenses := tbl_expenses scenario_db @
          [\<lparr>e_id = 3, e_description = ''Rent'', e_amount = 700, e_group_id = 2, e_paid_by = 4,
            e_split_type = EQUAL\<rparr>],
        tbl_expense_splits := tbl_expense_splits scenario_db @
          [\<lparr>s_expense_id = 3, s_user_id = 4, s_amount = 700, s_percentage = None\<rparr>]\<rparr>"

section \<open>Notions used to state the properties\<close>

text \<open>
  What the \<open>settlements\<close> dict holds for a user: the transfers the user pays (\<open>owes\<close>)
  and the transfers the user receives (\<open>owed_by\<close>); both empty for a key that is absent.
\<close>

definition owes_of :: "(int \<times> Settlement) list \<Rightarrow> int \<Rightarrow> (int \<times> rat) list" where
  "owes_of st u = (case map_of st u of None \<Rightarrow> [] | Some entry \<Rightarrow> owes entry)"

definition owed_by_of :: "(int \<times> Settlement) list \<Rightarrow> int \<Rightarrow> (int \<times> rat) list" where
  "owed_by_of st u = (case map_of st u of None \<Rightarrow> [] | Some entry \<Rightarrow> owed_by entry)"

text \<open>One iteration of the loop body, seen from the two lists and the cursors.\<close>

definition settle_amt_of :: "(int \<times> rat) list \<Rightarrow> (int \<times> rat) list \<Rightarrow> nat \<Rightarrow> nat \<Rightarrow> rat" where
  "settle_amt_of debtors creditors i j = min (- snd (debtors ! i)) (snd (creditors ! j))"

definition debtors_after :: "(int \<times> rat) list \<Rightarrow> (int \<times> rat) list \<Rightarrow> nat \<Rightarrow> nat \<Rightarrow> (int \<times> rat) list" where
  "debtors_after debtors creditors i j =
     debtors[i := (fst (debtors ! i), snd (debtors ! i) + settle_amt_of debtors creditors i j)]"

definition creditors_after :: "(int \<times> rat) list \<Rightarrow> (int \<times> rat) list \<Rightarrow> nat \<Rightarrow> nat \<Rightarrow> (int \<times> rat) list" where
  "creditors_after debtors creditors i j =
     creditors[j := (fst (creditors ! j), snd (creditors ! j) - settle_amt_of debtors creditors i j)]"

definition i_after :: "(int \<times> rat) list \<Rightarrow> (int \<times> rat) list \<Rightarrow> nat \<Rightarrow> nat \<Rightarrow> nat" where
  "i_after debtors creditors i j =
     (if \<bar>snd (debtors ! i) + settle_amt_of debtors creditors i j\<bar> < 1 / 100 then i + 1 else i)"

definition j_after :: "(int \<times> rat) list \<Rightarrow> (int \<times> rat) list \<Rightarrow> nat \<Rightarrow> nat \<Rightarrow> nat" where
  "j_after debtors creditors i j =
     (if \<bar>snd (creditors ! j) - settle_amt_of debtors creditors i j\<bar> < 1 / 100 then j + 1 else j)"

text \<open>
  The lists \<open>creditors\<close> and \<open>debtors\<close> that \<open>calculate_group_balances\<close> hands to its
  settlement loop.
\<close>

definition group_net_balances :: "int \<Rightarrow> db \<Rightarrow> (int \<times> rat) list" where
  "group_net_balances group_id d =
     user_net_balances_of (query_group_users group_id d)
       (user_paid_of (query_expenses group_id d)) (user_owes_of (query_splits group_id d))"

definition group_creditors :: "int \<Rightarrow> db \<Rightarrow> (int \<times> rat) list" where
  "group_creditors group_id d = fst (partition_balances (group_net_balances group_id d))"

definition group_debtors :: "int \<Rightarrow> db \<Rightarrow> (int \<times> rat) list" where
  "group_debtors group_id d = snd (partition_balances (group_net_balances group_id d))"

text \<open>
  The number of settlements in a result: every transfer is listed once in the \<open>owes\<close> map
  of the member who pays it (and once in the \<open>owed_by\<close> map of the member who receives it).
\<close>

definition settlement_count :: "Balance list \<Rightarrow> nat" where
  "settlement_count balances = sum_list (map (\<lambda>b. length (b_owes b)) balances)"

definition received_count :: "Balance list \<Rightarrow> nat" where
  "received_count balances = sum_list (map (\<lambda>b. length (b_owed_by b)) balances)"

text \<open>
  What is left of a member's rounded net balance once every settlement of the result is
  applied: a debtor's balance is negative and each transfer the member pays raises it, a
  creditor's balance is positive and each transfer the member receives lowers it.
\<close>

definition remaining_balance :: "Balance \<Rightarrow> rat" where
  "remaining_balance b =
     b_net_balance b + sum_list (map snd (b_owes b)) - sum_list (map snd (b_owed_by b))"

section \<open>Invariants of the settlement loop\<close>

text \<open>
  The first invariant: the loop changes neither the user ids in the two lists nor the keys
  of the dict, and the dict has a key for every id in the lists.
\<close>

definition keys_inv ::
  "int list \<Rightarrow> int list \<Rightarrow> int list \<Rightarrow> (int \<times> rat) list \<Rightarrow> (int \<times> rat) list
     \<Rightarrow> (int \<times> Settlement) list \<Rightarrow> bool" where
  "keys_inv dids cids ks D C st \<longleftrightarrow>
     map fst D = dids \<and> map fst C = cids \<and> map fst st = ks
     \<and> set dids \<subseteq> set ks \<and> set cids \<subseteq> set ks"

text \<open>
  Roles: only a user in the debtor list has an entry in its \<open>owes\<close> map, and only a user
  in the creditor list has an entry in its \<open>owed_by\<close> map.
\<close>

definition roles_inv :: "int list \<Rightarrow> int list \<Rightarrow> (int \<times> Settlement) list \<Rightarrow> bool" where
  "roles_inv dids cids st \<longleftrightarrow>
     (\<forall>u. owes_of st u \<noteq> [] \<longrightarrow> u \<in> set dids) \<and> (\<forall>u. owed_by_of st u \<noteq> [] \<longrightarrow> u \<in> set cids)"

text \<open>
  Counting: the entries of all \<open>owes\<close> maps, and of all \<open>owed_by\<close> maps, are at most the
  number of cursor moves so far, and at most one less than the two lists have elements.
\<close>

definition count_inv ::
  "int list \<Rightarrow> nat \<Rightarrow> nat \<Rightarrow> (int \<times> rat) list \<Rightarrow> (int \<times> rat) list
     \<Rightarrow> (int \<times> Settlement) list \<Rightarrow> bool" where
  "count_inv ks i j D C st \<longleftrightarrow>
     sum_list (map (\<lambda>k. length (owes_of st k)) ks) \<le> min (i + j) (length D + length C - 1)
     \<and> sum_list (map (\<lambda>k. length (owed_by_of st k)) ks) \<le> min (i + j) (length D + length C - 1)"

text \<open>An amount in whole cents. Every value that \<open>round(x, 2)\<close> returns is one.\<close>

definition cents :: "rat \<Rightarrow> bool" where
  "cents x \<longleftrightarrow> x * 100 \<in> \<int>"

text \<open>
  Amounts: the debtors' amounts stay whole cents and at most zero, the creditors' whole
  cents and at least zero, and an entry the cursor has passed is exactly zero.
\<close>

definition amounts_inv :: "nat \<Rightarrow> nat \<Rightarrow> (int \<times> rat) list \<Rightarrow> (int \<times> rat) list \<Rightarrow> bool" where
  "amounts_inv i j D C \<longleftrightarrow>
     i \<le> length D \<and> j \<le> length C
     \<and> (\<forall>k < length D. cents (snd (D ! k)) \<and> snd (D ! k) \<le> 0 \<and> (k < i \<longrightarrow> snd (D ! k) = 0))
     \<and> (\<forall>k < length C. cents (snd (C ! k)) \<and> 0 \<le> snd (C ! k) \<and> (k < j \<longrightarrow> snd (C ! k) = 0))"

text \<open>
  No overwriting: the debtors from the cursor on have entries only for creditors before
  the creditor cursor, and the other way round, so the pair the loop is about to record
  is new in both maps.
\<close>

definition fresh_inv :: "int list \<Rightarrow> int list \<Rightarrow> nat \<Rightarrow> nat \<Rightarrow> (int \<times> Settlement) list \<Rightarrow> bool" where
  "fresh_inv dids cids i j st \<longleftrightarrow>
     (\<forall>k. i \<le> k \<and> k < length dids \<longrightarrow> fst ` set (owes_of st (dids ! k)) \<subseteq> set (take j cids))
     \<and> (\<forall>k. j \<le> k \<and> k < length cids \<longrightarrow> fst ` set (owed_by_of st (cids ! k)) \<subseteq> set (take i dids))"

text \<open>
  Accounting: what is left of a debtor's amount is its first amount plus the transfers
  in its \<open>owes\<close> map, and what is left of a creditor's amount is its first amount minus
  the transfers in its \<open>owed_by\<close> map.
\<close>

definition link_inv ::
  "(int \<times> rat) list \<Rightarrow> (int \<times> rat) list \<Rightarrow> (int \<times> rat) list \<Rightarrow> (int \<times> rat) list
     \<Rightarrow> (int \<times> Settlement) list \<Rightarrow> bool" where
  "link_inv D0 C0 D C st \<longleftrightarrow>
     (\<forall>k < length D0.
        snd (D ! k) = snd (D0 ! k) + sum_list (map snd (owes_of st (fst (D0 ! k)))))
     \<and> (\<forall>k < length C0.
          snd (C ! k) = snd (C0 ! k) - sum_list (map snd (owed_by_of st (fst (C0 ! k)))))"

text \<open>The sum of the shares recorded for an expense.\<close>

definition expense_shares_total :: "db \<Rightarrow> Expense \<Rightarrow> rat" where
  "expense_shares_total d e =
     sum_list (map s_amount (filter (\<lambda>s. s_expense_id s = e_id e) (tbl_expense_splits d)))"

section \<open>Properties of \<open>add_expense\<close>\<close>

lemma find_Some_set: "find P xs = Some x \<Longrightarrow> x \<in> set xs \<and> P x"
  by (induction xs) (auto split: if_splits)

lemma paid_by_user_is_member:
  "query_paid_by_user group_id paid_by d = Some u \<Longrightarrow> query_members group_id d \<noteq> []"
  unfolding query_paid_by_user_def query_group_users_def query_members_def is_member_def
  by (auto dest!: find_Some_set simp: list_ex_iff filter_empty_conv)

lemma percentage_splits_error:
  "percentage_splits expense_id amount splits = Inl e \<Longrightarrow> e = TypeError"
  by (induction splits) (auto split: option.splits sum.splits)

lemma query_members_expenses_update [simp]:
  "query_members group_id (d\<lparr>tbl_expenses := es\<rparr>) = query_members group_id d"
  by (simp add: query_members_def)

text \<open>
  Claim C10. The division \<open>expense.amount / len(members)\<close> of the \<open>EQUAL\<close> branch never
  divides by zero: a request reaches the branch only after the query for the paying user
  among the group's members returned a row, and then the group has a membership row. No
  call of \<open>add_expense\<close> ends in \<open>ZeroDivisionError\<close>.
\<close>

theorem equal_split_never_divides_by_zero:
  "fst (add_expense group_id expense d) \<noteq> Inl ZeroDivisionError"
proof (cases "query_paid_by_user group_id (ec_paid_by expense) d")
  case None
  then show ?thesis
    by (simp add: add_expense_def split: option.splits)
next
  case (Some u)
  then have "query_members group_id d \<noteq> []"
    by (rule paid_by_user_is_member)
  then show ?thesis
    using Some
    by (auto simp: add_expense_def equal_splits_def Let_def
             split: option.splits sum.splits dest: percentage_splits_error)
qed

text \<open>The example group has three membership rows and the call does not raise.\<close>

theorem equal_split_never_divides_by_zero_witness:
  "fst (add_expense 1 (equal_request 90 1) example_db) \<noteq> Inl ZeroDivisionError
   \<and> length (query_members 1 example_db) = 3"
  using equal_split_never_divides_by_zero [of 1 "equal_request 90 1" example_db]
  by (simp add: query_members_def example_db_def)

text \<open>
  Claim C2, as amended. For a request with the \<open>EQUAL\<close> policy that passes the group and
  payer checks, the handler succeeds and writes one share for each membership row of the
  group (there is at least one), each of exactly \<open>expense.amount / len(members)\<close>: the
  quotient is stored as it is, and no rounding to two decimal places is applied.
\<close>

theorem equal_split_share_amounts:
  assumes "ec_split_type expense = EQUAL"
      and "query_group group_id d = Some g"
      and "query_paid_by_user group_id (ec_paid_by expense) d = Some u"
  shows "query_members group_id d \<noteq> [] \<and>
         (\<exists>db_expense.
            add_expense group_id expense d =
              (Inr db_expense,
               d\<lparr>tbl_expenses := tbl_expenses d @ [db_expense],
                 tbl_expense_splits := tbl_expense_splits d @
                   map (\<lambda>member.
                          \<lparr>s_expense_id = e_id db_expense, s_user_id = gm_user_id member,
                           s_amount = ec_amount expense / of_nat (length (query_members group_id d)),
                           s_percentage = None\<rparr>)
                     (query_members group_id d)\<rparr>))"
proof -
  have ne: "query_members group_id d \<noteq> []"
    using assms(3) by (rule paid_by_user_is_member)
  then show ?thesis
    using assms by (simp add: add_expense_def equal_splits_def Let_def)
qed

text \<open>An amount of 100 among the three members of the example group: three shares of 100/3.\<close>

theorem equal_split_share_amounts_witness:
  "map s_amount (tbl_expense_splits (snd (add_expense 1 (equal_request 100 1) example_db)))
     = [100 / 3, 100 / 3, 100 / 3]"
proof -
  have 1: "ec_split_type (equal_request 100 1) = EQUAL"
    by (simp add: equal_request_def)
  have 2: "query_group 1 example_db = Some \<lparr>g_id = 1, g_name = ''Trip''\<rparr>"
    by (simp add: query_group_def example_db_def)
  have 3: "query_paid_by_user 1 (ec_paid_by (equal_request 100 1)) example_db
             = Some \<lparr>u_id = 1, u_name = ''A'', u_email = ''a@example.com''\<rparr>"
    by (simp add: query_paid_by_user_def query_group_users_def is_member_def example_db_def
                  equal_request_def)
  have 4: "query_members 1 example_db = tbl_group_members example_db"
    by (simp add: query_members_def example_db_def)
  show ?thesis
    using equal_split_share_amounts [OF 1 2 3]
    by (auto simp: 4) (simp add: example_db_def equal_request_def)
qed

text \<open>
  Claim C2 as stated fails: with the \<open>EQUAL\<close> policy, amount 100 and three members, each
  stored share is 100/3, while 100/3 rounded half-to-even to two places is 33.33.
\<close>

theorem equal_split_not_rounded_counterexample:
  "ec_split_type (equal_request 100 1) = EQUAL
   \<and> 0 < ec_amount (equal_request 100 1)
   \<and> length (query_members 1 example_db) = 3
   \<and> map s_amount (tbl_expense_splits (snd (add_expense 1 (equal_request 100 1) example_db)))
       = [100 / 3, 100 / 3, 100 / 3]
   \<and> py_round (100 / 3) 2 = 3333 / 100
   \<and> py_round (100 / 3) 2 \<noteq> 100 / 3"
  by code_simp

text \<open>
  Claim C3. A \<open>PERCENTAGE\<close> request in which one split has no percentage while the others
  sum to 100 passes the validation of line 308 (the missing entry counts as 0), the
  expense row is committed, and the split loop then raises \<open>TypeError\<close> on
  \<open>None / 100\<close>: the call does not fail with a validation error, and the expense row
  stays in the database without any share.
\<close>

theorem missing_percentage_persists_expense:
  "add_expense 1 (percentage_request 100 1 [(1, Some 100), (2, None)]) example_db =
     (Inl TypeError,
      example_db\<lparr>tbl_expenses :=
        [\<lparr>e_id = 1, e_description = ''Taxi'', e_amount = 100, e_group_id = 1, e_paid_by = 1,
          e_split_type = PERCENTAGE\<rparr>]\<rparr>)"
  by code_simp

text \<open>
  Claim C4. A \<open>PERCENTAGE\<close> request whose percentages are further than 0.01 from 100 is
  rejected with an \<open>HTTPException\<close> before anything is written: the database is
  unchanged (no expense row and no share row), and once the group and the payer are
  found the error is the 400 of the percentage check.
\<close>

theorem percentage_sum_rejected:
  assumes "ec_split_type expense = PERCENTAGE"
      and "1 / 100 < \<bar>total_percentage (ec_splits expense) - 100\<bar>"
  shows "snd (add_expense group_id expense d) = d
         \<and> fst (add_expense group_id expense d) =
             (if query_group group_id d = None
              then Inl (HTTPException 404 ''Group not found'')
              else if query_paid_by_user group_id (ec_paid_by expense) d = None
              then Inl (HTTPException 400 ''Paid by user not in group'')
              else Inl (HTTPException 400 ''Percentages must sum to 100''))"
  using assms by (auto simp: add_expense_def split: option.splits)

text \<open>Percentages 60 and 30 in the example group: status 400, database unchanged.\<close>

theorem percentage_sum_rejected_witness:
  "add_expense 1 (percentage_request 100 1 [(1, Some 60), (2, Some 30)]) example_db
     = (Inl (HTTPException 400 ''Percentages must sum to 100''), example_db)"
proof -
  let ?r = "percentage_request 100 1 [(1, Some 60), (2, Some 30)]"
  have 1: "ec_split_type ?r = PERCENTAGE"
    by (simp add: percentage_request_def)
  have 2: "1 / 100 < \<bar>total_percentage (ec_splits ?r) - 100\<bar>"
    by (simp add: percentage_request_def total_percentage_def)
  have 3: "query_group 1 example_db \<noteq> None"
    by (simp add: query_group_def example_db_def)
  have 4: "query_paid_by_user 1 (ec_paid_by ?r) example_db \<noteq> None"
    by (simp add: query_paid_by_user_def query_group_users_def is_member_def example_db_def
                  percentage_request_def)
  show ?thesis
    using percentage_sum_rejected [OF 1 2, of 1 example_db] 3 4
    by (simp add: prod_eq_iff)
qed

section \<open>The settlement loop\<close>

declare settle_loop.simps [simp del]

lemma settle_loop_unfold:
  "settle_loop i j D C st =
     (if i < length D \<and> j < length C then
        (case record_settlement st (fst (D ! i)) (fst (C ! j)) (settle_amt_of D C i j) of
           Inl e \<Rightarrow> Inl e
         | Inr st' \<Rightarrow>
             settle_loop (i_after D C i j) (j_after D C i j)
               (debtors_after D C i j) (creditors_after D C i j) st')
      else Inr st)"
  unfolding settle_amt_of_def i_after_def j_after_def debtors_after_def creditors_after_def
  by (subst settle_loop.simps) (unfold Let_def, rule refl)

lemma settle_loop_done:
  "\<not> (i < length D \<and> j < length C) \<Longrightarrow> settle_loop i j D C st = Inr st"
  by (cases "i < length D") (simp_all add: settle_loop_unfold [of i j D C st])

lemma settle_loop_step:
  "i < length D \<Longrightarrow> j < length C \<Longrightarrow>
   record_settlement st (fst (D ! i)) (fst (C ! j)) (settle_amt_of D C i j) = Inr st' \<Longrightarrow>
   settle_loop i j D C st =
     settle_loop (i_after D C i j) (j_after D C i j) (debtors_after D C i j)
       (creditors_after D C i j) st'"
  using settle_loop_unfold [of i j D C st] by simp

text \<open>
  Total correctness of the loop from an invariant: when every iteration records its
  settlement without an error and keeps the invariant, the loop returns a dict, and the
  invariant holds of the final cursors and lists, with the loop condition false.
\<close>

lemma settle_loop_rule:
  assumes inv: "I i j D C st"
      and step: "\<And>i j D C st. I i j D C st \<Longrightarrow> i < length D \<Longrightarrow> j < length C \<Longrightarrow>
                   \<exists>st'. record_settlement st (fst (D ! i)) (fst (C ! j)) (settle_amt_of D C i j)
                           = Inr st'
                         \<and> I (i_after D C i j) (j_after D C i j)
                             (debtors_after D C i j) (creditors_after D C i j) st'"
  shows "\<exists>st' i' j' D' C'. settle_loop i j D C st = Inr st' \<and> I i' j' D' C' st'
                           \<and> \<not> (i' < length D' \<and> j' < length C')"
  using inv
proof (induction i j D C st rule: settle_loop.induct)
  case (1 i j D C st)
  show ?case
  proof (cases "i < length D \<and> j < length C")
    case False
    then have "settle_loop i j D C st = Inr st"
      by (rule settle_loop_done)
    with False "1.prems" show ?thesis by blast
  next
    case True
    from step [OF "1.prems"] True obtain st' where
      r: "record_settlement st (fst (D ! i)) (fst (C ! j)) (settle_amt_of D C i j) = Inr st'"
      and I': "I (i_after D C i j) (j_after D C i j) (debtors_after D C i j)
                 (creditors_after D C i j) st'"
      by blast
    have eq: "settle_loop i j D C st =
                settle_loop (i_after D C i j) (j_after D C i j) (debtors_after D C i j)
                  (creditors_after D C i j) st'"
      using True r by (simp add: settle_loop_step)
    have "\<exists>st'' i' j' D' C'.
            settle_loop (i_after D C i j) (j_after D C i j) (debtors_after D C i j)
              (creditors_after D C i j) st' = Inr st'' \<and> I i' j' D' C' st''
            \<and> \<not> (i' < length D' \<and> j' < length C')"
      using "1.IH" [OF True refl refl refl refl refl, of st'] r I'
      by (simp add: settle_amt_of_def i_after_def j_after_def debtors_after_def
                    creditors_after_def)
    then show ?thesis by (simp add: eq)
  qed
qed

subsection \<open>Recording one settlement\<close>

lemma map_fst_update_present:
  "k \<in> fst ` set al \<Longrightarrow> map fst (AList.update k v al) = map fst al"
  by (simp add: update_keys)

lemma record_settlement_Inr:
  assumes d: "debtor_id \<in> fst ` set st" and c: "creditor_id \<in> fst ` set st"
  shows "\<exists>st'. record_settlement st debtor_id creditor_id a = Inr st'
           \<and> map fst st' = map fst st
           \<and> owes_of st' = (owes_of st)(debtor_id := AList.update creditor_id a (owes_of st debtor_id))
           \<and> owed_by_of st' =
               (owed_by_of st)(creditor_id := AList.update debtor_id a (owed_by_of st creditor_id))"
proof -
  from d obtain de where de: "map_of st debtor_id = Some de"
    by (metis weak_map_of_SomeI imageE prod.collapse)
  define st1 where
    "st1 = AList.update debtor_id (de\<lparr>owes := AList.update creditor_id a (owes de)\<rparr>) st"
  have keys1: "map fst st1 = map fst st"
    unfolding st1_def using d by (rule map_fst_update_present)
  have m1: "map_of st1 = (map_of st)(debtor_id \<mapsto> de\<lparr>owes := AList.update creditor_id a (owes de)\<rparr>)"
    unfolding st1_def by (rule update_conv')
  from c keys1 have "creditor_id \<in> fst ` set st1"
    by (metis set_map)
  then obtain ce where ce: "map_of st1 creditor_id = Some ce"
    by (metis weak_map_of_SomeI imageE prod.collapse)
  define st2 where
    "st2 = AList.update creditor_id (ce\<lparr>owed_by := AList.update debtor_id a (owed_by ce)\<rparr>) st1"
  have r: "record_settlement st debtor_id creditor_id a = Inr st2"
    using de ce by (simp add: record_settlement_def Let_def st1_def [symmetric] st2_def)
  have keys2: "map fst st2 = map fst st"
    unfolding st2_def using \<open>creditor_id \<in> fst ` set st1\<close> keys1
    by (simp add: map_fst_update_present)
  have m2: "map_of st2 = (map_of st1)(creditor_id \<mapsto> ce\<lparr>owed_by := AList.update debtor_id a (owed_by ce)\<rparr>)"
    unfolding st2_def by (rule update_conv')
  have o: "owes_of st2 = (owes_of st)(debtor_id := AList.update creditor_id a (owes_of st debtor_id))"
    using de ce by (auto simp: fun_eq_iff owes_of_def m1 m2 split: if_splits)
  have b: "owed_by_of st2 =
             (owed_by_of st)(creditor_id := AList.update debtor_id a (owed_by_of st creditor_id))"
    using de ce by (auto simp: fun_eq_iff owed_by_of_def m1 m2 split: if_splits)
  from r keys2 o b show ?thesis by blast
qed

lemma map_fst_debtors_after [simp]:
  "map fst (debtors_after D C i j) = map fst D"
  by (cases "i < length D") (simp_all add: debtors_after_def map_update list_update_same_conv list_update_beyond)

lemma map_fst_creditors_after [simp]:
  "map fst (creditors_after D C i j) = map fst C"
  by (cases "j < length C") (simp_all add: creditors_after_def map_update list_update_same_conv list_update_beyond)

lemma length_debtors_after [simp]: "length (debtors_after D C i j) = length D"
  by (simp add: debtors_after_def)

lemma length_creditors_after [simp]: "length (creditors_after D C i j) = length C"
  by (simp add: creditors_after_def)

text \<open>
  Every iteration settles its debtor or its creditor exactly, so a cursor moves.
\<close>

lemma cursor_moves:
  "i_after D C i j + j_after D C i j \<ge> i + j + 1"
proof -
  have "snd (D ! i) + settle_amt_of D C i j = 0 \<or> snd (C ! j) - settle_amt_of D C i j = 0"
    by (auto simp: settle_amt_of_def min_def)
  then show ?thesis
    by (auto simp: i_after_def j_after_def)
qed

subsection \<open>The keys of the loop's data\<close>

lemma keys_inv_step:
  assumes "keys_inv dids cids ks D C st" and "i < length D" and "j < length C"
  shows "\<exists>st'. record_settlement st (fst (D ! i)) (fst (C ! j)) a = Inr st'
           \<and> keys_inv dids cids ks (debtors_after D C i j) (creditors_after D C i j) st'
           \<and> owes_of st' =
               (owes_of st)(fst (D ! i) := AList.update (fst (C ! j)) a (owes_of st (fst (D ! i))))
           \<and> owed_by_of st' =
               (owed_by_of st)(fst (C ! j) :=
                  AList.update (fst (D ! i)) a (owed_by_of st (fst (C ! j))))"
proof -
  have "fst (D ! i) \<in> fst ` set D" "fst (C ! j) \<in> fst ` set C"
    using assms(2,3) by simp_all
  then have "fst (D ! i) \<in> fst ` set st" "fst (C ! j) \<in> fst ` set st"
    using assms(1) unfolding keys_inv_def by (metis set_map subsetD)+
  from record_settlement_Inr [OF this, of a] obtain st' where
    "record_settlement st (fst (D ! i)) (fst (C ! j)) a = Inr st'"
    "map fst st' = map fst st"
    "owes_of st' =
       (owes_of st)(fst (D ! i) := AList.update (fst (C ! j)) a (owes_of st (fst (D ! i))))"
    "owed_by_of st' =
       (owed_by_of st)(fst (C ! j) := AList.update (fst (D ! i)) a (owed_by_of st (fst (C ! j))))"
    by blast
  moreover from this(2) assms(1)
  have "keys_inv dids cids ks (debtors_after D C i j) (creditors_after D C i j) st'"
    by (simp add: keys_inv_def)
  ultimately show ?thesis by blast
qed

section \<open>The data the loop starts from\<close>

lemma update_absent: "k \<notin> fst ` set al \<Longrightarrow> AList.update k v al = al @ [(k, v)]"
  by (induction al) auto

lemma fold_update_map_of:
  "map_of (fold (\<lambda>user nb. AList.update (u_id user) (f (u_id user)) nb) us acc) k =
     (if k \<in> u_id ` set us then Some (f k) else map_of acc k)"
  by (induction us arbitrary: acc) (auto simp: update_conv')

lemma fold_update_keys:
  "fst ` set (fold (\<lambda>user nb. AList.update (u_id user) (f (u_id user)) nb) us acc) =
     u_id ` set us \<union> fst ` set acc"
  by (induction us arbitrary: acc) (auto simp: dom_update)

lemma fold_update_distinct:
  "distinct (map fst acc) \<Longrightarrow>
   distinct (map fst (fold (\<lambda>user nb. AList.update (u_id user) (f (u_id user)) nb) us acc))"
  by (induction us arbitrary: acc) (auto simp: distinct_update)

lemma fold_update_append:
  "distinct (map u_id us) \<Longrightarrow> u_id ` set us \<inter> fst ` set acc = {} \<Longrightarrow>
   fold (\<lambda>user nb. AList.update (u_id user) (f (u_id user)) nb) us acc =
     acc @ map (\<lambda>user. (u_id user, f (u_id user))) us"
proof (induction us arbitrary: acc)
  case Nil
  then show ?case by simp
next
  case (Cons u us)
  have "u_id u \<notin> fst ` set acc"
    using Cons.prems(2) by auto
  then have upd: "AList.update (u_id u) (f (u_id u)) acc = acc @ [(u_id u, f (u_id u))]"
    by (rule update_absent)
  have "u_id ` set us \<inter> fst ` set (acc @ [(u_id u, f (u_id u))]) = {}"
    using Cons.prems by auto
  with Cons.IH [of "acc @ [(u_id u, f (u_id u))]"] Cons.prems(1) upd
  show ?case by simp
qed

text \<open>The dict \<open>user_net_balances\<close>: paid minus owed for the users of the group.\<close>

lemma user_net_balances_map_of:
  "map_of (user_net_balances_of us p w) k =
     (if k \<in> u_id ` set us then Some (p k - w k) else None)"
  unfolding user_net_balances_of_def
  using fold_update_map_of [of "\<lambda>k. p k - w k" us "[]" k] by simp

lemma user_net_balances_keys:
  "fst ` set (user_net_balances_of us p w) = u_id ` set us"
  unfolding user_net_balances_of_def
  using fold_update_keys [of "\<lambda>k. p k - w k" us "[]"] by simp

lemma user_net_balances_distinct:
  "distinct (map fst (user_net_balances_of us p w))"
  unfolding user_net_balances_of_def
  using fold_update_distinct [of "[]" "\<lambda>k. p k - w k" us] by simp

lemma user_net_balances_eq_map:
  "distinct (map u_id us) \<Longrightarrow>
   user_net_balances_of us p w = map (\<lambda>user. (u_id user, p (u_id user) - w (u_id user))) us"
  unfolding user_net_balances_of_def
  using fold_update_append [of us "[]" "\<lambda>k. p k - w k"] by simp

text \<open>The dict \<open>settlements\<close> before the loop.\<close>

lemma init_settlements_map_of:
  "map_of (init_settlements us) k =
     (if k \<in> u_id ` set us then Some \<lparr>owes = [], owed_by = []\<rparr> else None)"
  unfolding init_settlements_def
  using fold_update_map_of [of "\<lambda>k. \<lparr>owes = [], owed_by = []\<rparr>" us "[]" k] by simp

lemma init_settlements_keys:
  "fst ` set (init_settlements us) = u_id ` set us"
  unfolding init_settlements_def
  using fold_update_keys [of "\<lambda>k. \<lparr>owes = [], owed_by = []\<rparr>" us "[]"] by simp

lemma owes_of_init [simp]: "owes_of (init_settlements us) u = []"
  by (simp add: owes_of_def init_settlements_map_of)

lemma owed_by_of_init [simp]: "owed_by_of (init_settlements us) u = []"
  by (simp add: owed_by_of_def init_settlements_map_of)

text \<open>The two lists of lines 438 to 442, as filters of the dict's items.\<close>

lemma partition_balances_fold:
  "fold (\<lambda>(user_id, net) (creditors, debtors).
           if 0 < py_round net 2 then (creditors @ [(user_id, py_round net 2)], debtors)
           else if py_round net 2 < 0 then (creditors, debtors @ [(user_id, py_round net 2)])
           else (creditors, debtors))
     nb (cs, ds) =
   (cs @ map (\<lambda>(k, v). (k, py_round v 2)) (filter (\<lambda>(k, v). 0 < py_round v 2) nb),
    ds @ map (\<lambda>(k, v). (k, py_round v 2)) (filter (\<lambda>(k, v). py_round v 2 < 0) nb))"
  by (induction nb arbitrary: cs ds) auto

lemma creditors_eq:
  "fst (partition_balances nb) =
     map (\<lambda>(k, v). (k, py_round v 2)) (filter (\<lambda>(k, v). 0 < py_round v 2) nb)"
  by (simp add: partition_balances_def partition_balances_fold)

lemma debtors_eq:
  "snd (partition_balances nb) =
     map (\<lambda>(k, v). (k, py_round v 2)) (filter (\<lambda>(k, v). py_round v 2 < 0) nb)"
  by (simp add: partition_balances_def partition_balances_fold)

lemma map_fst_creditors:
  "map fst (fst (partition_balances nb)) = map fst (filter (\<lambda>(k, v). 0 < py_round v 2) nb)"
  by (simp add: creditors_eq case_prod_beta comp_def)

lemma map_fst_debtors:
  "map fst (snd (partition_balances nb)) = map fst (filter (\<lambda>(k, v). py_round v 2 < 0) nb)"
  by (simp add: debtors_eq case_prod_beta comp_def)

lemma distinct_map_fst_filter:
  "distinct (map fst al) \<Longrightarrow> distinct (map fst (filter P al))"
  by (induction al) auto

lemma creditors_debtors_disjoint:
  assumes "distinct (map fst nb)"
  shows "set (map fst (snd (partition_balances nb))) \<inter>
         set (map fst (fst (partition_balances nb))) = {}"
proof -
  have "\<And>k v v'. (k, v) \<in> set nb \<Longrightarrow> (k, v') \<in> set nb \<Longrightarrow> v = v'"
    using assms by (meson eq_key_imp_eq_value)
  then show ?thesis
    unfolding map_fst_creditors map_fst_debtors by fastforce
qed

lemma creditors_keys_subset:
  "set (map fst (fst (partition_balances nb))) \<subseteq> fst ` set nb"
  unfolding map_fst_creditors by auto

lemma debtors_keys_subset:
  "set (map fst (snd (partition_balances nb))) \<subseteq> fst ` set nb"
  unfolding map_fst_debtors by auto

text \<open>The rows of the result, when every user has a key in both dicts.\<close>

lemma build_balances_Inr:
  assumes "u_id ` set us \<subseteq> fst ` set st"
      and "\<And>u. u \<in> set us \<Longrightarrow> map_of nb (u_id u) = Some (net (u_id u))"
  shows "build_balances us nb st =
           Inr (map (\<lambda>user. \<lparr>b_user_id = u_id user, b_user_name = u_name user,
                              b_owes = owes_of st (u_id user),
                              b_owed_by = owed_by_of st (u_id user),
                              b_net_balance = py_round (net (u_id user)) 2\<rparr>) us)"
  using assms
proof (induction us)
  case Nil
  then show ?case by simp
next
  case (Cons u us)
  from Cons.prems(1) have "u_id u \<in> fst ` set st"
    by auto
  then obtain e where e: "map_of st (u_id u) = Some e"
    by (metis weak_map_of_SomeI imageE prod.collapse)
  have "build_balances us nb st =
          Inr (map (\<lambda>user. \<lparr>b_user_id = u_id user, b_user_name = u_name user,
                             b_owes = owes_of st (u_id user),
                             b_owed_by = owed_by_of st (u_id user),
                             b_net_balance = py_round (net (u_id user)) 2\<rparr>) us)"
    using Cons.IH Cons.prems by auto
  then show ?case
    using e Cons.prems(2) [of u] by (simp add: owes_of_def owed_by_of_def)
qed

lemma calculate_group_balances_unfold:
  "calculate_group_balances group_id d =
     (case settle_loop 0 0 (group_debtors group_id d) (group_creditors group_id d)
             (init_settlements (query_group_users group_id d)) of
        Inl e \<Rightarrow> Inl e
      | Inr settled \<Rightarrow>
          build_balances (query_group_users group_id d) (group_net_balances group_id d) settled)"
  unfolding calculate_group_balances_def Let_def group_debtors_def group_creditors_def
            group_net_balances_def
  by (rule refl)

text \<open>The net balance of a user of the group: paid total minus owed total.\<close>

lemma group_net_balances_map_of:
  "u \<in> set (query_group_users group_id d) \<Longrightarrow>
   map_of (group_net_balances group_id d) (u_id u) =
     Some (user_paid_of (query_expenses group_id d) (u_id u)
           - user_owes_of (query_splits group_id d) (u_id u))"
  by (simp add: group_net_balances_def user_net_balances_map_of)

lemma group_keys_inv:
  "keys_inv (map fst (group_debtors group_id d)) (map fst (group_creditors group_id d))
     (map fst (init_settlements (query_group_users group_id d)))
     (group_debtors group_id d) (group_creditors group_id d)
     (init_settlements (query_group_users group_id d))"
proof -
  have "fst ` set (group_net_balances group_id d) = u_id ` set (query_group_users group_id d)"
    by (simp add: group_net_balances_def user_net_balances_keys)
  then show ?thesis
    using debtors_keys_subset [of "group_net_balances group_id d"]
          creditors_keys_subset [of "group_net_balances group_id d"]
    by (simp add: keys_inv_def group_debtors_def group_creditors_def init_settlements_keys)
qed

lemma group_roles_disjoint:
  "set (map fst (group_debtors group_id d)) \<inter> set (map fst (group_creditors group_id d)) = {}"
  unfolding group_debtors_def group_creditors_def group_net_balances_def
  by (rule creditors_debtors_disjoint) (rule user_net_balances_distinct)

section \<open>Properties of \<open>calculate_group_balances\<close>\<close>

text \<open>
  The loop rule with the keys invariant built in: a further invariant has to be kept
  only under the two equations that describe the recorded settlement.
\<close>

lemma settle_loop_keys_rule:
  assumes keys: "keys_inv dids cids ks D C st"
      and inv: "J i j D C st"
      and step: "\<And>i j D C st st'.
                   keys_inv dids cids ks D C st \<Longrightarrow> J i j D C st \<Longrightarrow>
                   i < length D \<Longrightarrow> j < length C \<Longrightarrow>
                   owes_of st' =
                     (owes_of st)(fst (D ! i) :=
                        AList.update (fst (C ! j)) (settle_amt_of D C i j) (owes_of st (fst (D ! i)))) \<Longrightarrow>
                   owed_by_of st' =
                     (owed_by_of st)(fst (C ! j) :=
                        AList.update (fst (D ! i)) (settle_amt_of D C i j)
                          (owed_by_of st (fst (C ! j)))) \<Longrightarrow>
                   J (i_after D C i j) (j_after D C i j) (debtors_after D C i j)
                     (creditors_after D C i j) st'"
  shows "\<exists>st' i' j' D' C'. settle_loop i j D C st = Inr st' \<and> keys_inv dids cids ks D' C' st'
           \<and> J i' j' D' C' st' \<and> \<not> (i' < length D' \<and> j' < length C')"
proof -
  let ?I = "\<lambda>i j D C st. keys_inv dids cids ks D C st \<and> J i j D C st"
  have "\<exists>st' i' j' D' C'. settle_loop i j D C st = Inr st' \<and> ?I i' j' D' C' st'
          \<and> \<not> (i' < length D' \<and> j' < length C')"
  proof (rule settle_loop_rule [where I = ?I])
    show "?I i j D C st" using keys inv by simp
  next
    fix i j D C st
    assume I: "?I i j D C st" and i: "i < length D" and j: "j < length C"
    from keys_inv_step [of dids cids ks D C st i j "settle_amt_of D C i j"] I i j
    obtain st' where
      r: "record_settlement st (fst (D ! i)) (fst (C ! j)) (settle_amt_of D C i j) = Inr st'"
      and k: "keys_inv dids cids ks (debtors_after D C i j) (creditors_after D C i j) st'"
      and o: "owes_of st' =
                (owes_of st)(fst (D ! i) :=
                   AList.update (fst (C ! j)) (settle_amt_of D C i j) (owes_of st (fst (D ! i))))"
      and b: "owed_by_of st' =
                (owed_by_of st)(fst (C ! j) :=
                   AList.update (fst (D ! i)) (settle_amt_of D C i j)
                     (owed_by_of st (fst (C ! j))))"
      by blast
    have "J (i_after D C i j) (j_after D C i j) (debtors_after D C i j)
            (creditors_after D C i j) st'"
      using I i j o b by (intro step) simp_all
    with r k show "\<exists>st'. record_settlement st (fst (D ! i)) (fst (C ! j)) (settle_amt_of D C i j)
                           = Inr st'
                     \<and> ?I (i_after D C i j) (j_after D C i j) (debtors_after D C i j)
                          (creditors_after D C i j) st'"
      by blast
  qed
  then show ?thesis by blast
qed

text \<open>The result of the whole computation, from what the loop returns.\<close>

lemma balances_of_settled:
  assumes "settle_loop 0 0 (group_debtors group_id d) (group_creditors group_id d)
             (init_settlements (query_group_users group_id d)) = Inr st'"
      and "map fst st' = map fst (init_settlements (query_group_users group_id d))"
  shows "calculate_group_balances group_id d =
           Inr (map (\<lambda>user.
                       \<lparr>b_user_id = u_id user, b_user_name = u_name user,
                        b_owes = owes_of st' (u_id user),
                        b_owed_by = owed_by_of st' (u_id user),
                        b_net_balance =
                          py_round (user_paid_of (query_expenses group_id d) (u_id user)
                                    - user_owes_of (query_splits group_id d) (u_id user)) 2\<rparr>)
                  (query_group_users group_id d))"
proof -
  have "fst ` set st' = u_id ` set (query_group_users group_id d)"
    using assms(2) init_settlements_keys [of "query_group_users group_id d"]
    by (metis set_map)
  then have "u_id ` set (query_group_users group_id d) \<subseteq> fst ` set st'"
    by simp
  from build_balances_Inr [OF this, of "group_net_balances group_id d"
         "\<lambda>k. user_paid_of (query_expenses group_id d) k - user_owes_of (query_splits group_id d) k"]
  show ?thesis
    by (simp add: calculate_group_balances_unfold assms(1) group_net_balances_map_of)
qed

lemma roles_inv_step:
  assumes "roles_inv (map fst D) (map fst C) st" and "i < length D" and "j < length C"
      and "owes_of st' = (owes_of st)(fst (D ! i) := AList.update c a (owes_of st (fst (D ! i))))"
      and "owed_by_of st' =
             (owed_by_of st)(fst (C ! j) := AList.update e a (owed_by_of st (fst (C ! j))))"
  shows "roles_inv (map fst D) (map fst C) st'"
  using assms by (auto simp: roles_inv_def)

lemma settle_loop_roles:
  "\<exists>st'. settle_loop 0 0 (group_debtors group_id d) (group_creditors group_id d)
           (init_settlements (query_group_users group_id d)) = Inr st'
         \<and> map fst st' = map fst (init_settlements (query_group_users group_id d))
         \<and> roles_inv (map fst (group_debtors group_id d)) (map fst (group_creditors group_id d)) st'"
proof -
  let ?dids = "map fst (group_debtors group_id d)"
  let ?cids = "map fst (group_creditors group_id d)"
  let ?ks = "map fst (init_settlements (query_group_users group_id d))"
  have "\<exists>st' i' j' D' C'.
          settle_loop 0 0 (group_debtors group_id d) (group_creditors group_id d)
            (init_settlements (query_group_users group_id d)) = Inr st'
          \<and> keys_inv ?dids ?cids ?ks D' C' st'
          \<and> roles_inv ?dids ?cids st' \<and> \<not> (i' < length D' \<and> j' < length C')"
  proof (rule settle_loop_keys_rule [where J = "\<lambda>i j D C st. roles_inv ?dids ?cids st"])
    show "keys_inv ?dids ?cids ?ks (group_debtors group_id d) (group_creditors group_id d)
            (init_settlements (query_group_users group_id d))"
      by (rule group_keys_inv)
  next
    show "roles_inv ?dids ?cids (init_settlements (query_group_users group_id d))"
      by (simp add: roles_inv_def)
  next
    fix i j D C st st'
    assume k: "keys_inv ?dids ?cids ?ks D C st" and "roles_inv ?dids ?cids st"
       and "i < length D" "j < length C"
       and "owes_of st' =
              (owes_of st)(fst (D ! i) :=
                 AList.update (fst (C ! j)) (settle_amt_of D C i j) (owes_of st (fst (D ! i))))"
       and "owed_by_of st' =
              (owed_by_of st)(fst (C ! j) :=
                 AList.update (fst (D ! i)) (settle_amt_of D C i j) (owed_by_of st (fst (C ! j))))"
    moreover from k have "map fst D = ?dids" "map fst C = ?cids"
      by (simp_all add: keys_inv_def)
    ultimately show "roles_inv ?dids ?cids st'"
      using roles_inv_step [of D C st i j st'] by simp
  qed
  then show ?thesis
    by (auto simp: keys_inv_def)
qed




text \<open>
  Claim C7. In the result of every computation no member has both an entry in its
  \<open>owes\<close> map and an entry in its \<open>owed_by\<close> map: who pays a transfer receives none.
\<close>

theorem roles_mutually_exclusive:
  "\<exists>balances.
     calculate_group_balances group_id d = Inr balances
     \<and> (\<forall>b \<in> set balances. b_owes b = [] \<or> b_owed_by b = [])"
proof -
  from settle_loop_roles [of group_id d] obtain st' where
    loop: "settle_loop 0 0 (group_debtors group_id d) (group_creditors group_id d)
             (init_settlements (query_group_users group_id d)) = Inr st'"
    and keys: "map fst st' = map fst (init_settlements (query_group_users group_id d))"
    and roles: "roles_inv (map fst (group_debtors group_id d))
                  (map fst (group_creditors group_id d)) st'"
    by blast
  have "owes_of st' u = [] \<or> owed_by_of st' u = []" for u
    using roles group_roles_disjoint [of group_id d] unfolding roles_inv_def by blast
  then show ?thesis
    unfolding balances_of_settled [OF loop keys] by auto
qed

text \<open>In the scenario A only receives, B and C only pay.\<close>

theorem roles_mutually_exclusive_witness:
  "calculate_group_balances 1 scenario_db =
     Inr [\<lparr>b_user_id = 1, b_user_name = ''A'', b_owes = [], b_owed_by = [(2, 10), (3, 40)],
            b_net_balance = 50\<rparr>,
          \<lparr>b_user_id = 2, b_user_name = ''B'', b_owes = [(1, 10)], b_owed_by = [],
            b_net_balance = - 10\<rparr>,
          \<lparr>b_user_id = 3, b_user_name = ''C'', b_owes = [(1, 40)], b_owed_by = [],
            b_net_balance = - 40\<rparr>]
   \<and> list_all (\<lambda>b. b_owes b = [] \<or> b_owed_by b = [])
        (case calculate_group_balances 1 scenario_db of Inl e \<Rightarrow> [] | Inr balances \<Rightarrow> balances)"
proof -
  have e: "calculate_group_balances 1 scenario_db =
     Inr [\<lparr>b_user_id = 1, b_user_name = ''A'', b_owes = [], b_owed_by = [(2, 10), (3, 40)],
            b_net_balance = 50\<rparr>,
          \<lparr>b_user_id = 2, b_user_name = ''B'', b_owes = [(1, 10)], b_owed_by = [],
            b_net_balance = - 10\<rparr>,
          \<lparr>b_user_id = 3, b_user_name = ''C'', b_owes = [(1, 40)], b_owed_by = [],
            b_net_balance = - 40\<rparr>]"
    by code_simp
  from roles_mutually_exclusive [of 1 scenario_db] obtain balances where
    "calculate_group_balances 1 scenario_db = Inr balances"
    "\<forall>b \<in> set balances. b_owes b = [] \<or> b_owed_by b = []"
    by blast
  then have "list_all (\<lambda>b. b_owes b = [] \<or> b_owed_by b = [])
               (case calculate_group_balances 1 scenario_db of Inl e \<Rightarrow> [] | Inr balances \<Rightarrow> balances)"
    by (simp add: list_all_iff)
  with e show ?thesis by (simp only: simp_thms)
qed

subsection \<open>Counting the settlements\<close>

lemma sum_list_map_upd_le:
  fixes f g :: "int \<Rightarrow> nat"
  assumes "distinct ks" and "g x \<le> f x + 1" and "\<And>k. k \<noteq> x \<Longrightarrow> g k = f k"
  shows "sum_list (map g ks) \<le> sum_list (map f ks) + 1"
  using assms(1)
proof (induction ks)
  case Nil
  then show ?case by simp
next
  case (Cons k ks)
  show ?case
  proof (cases "k = x")
    case True
    then have "x \<notin> set ks" using Cons.prems by simp
    then have "map g ks = map f ks"
      using assms(3) by (intro map_cong refl) metis
    then have "sum_list (map g ks) = sum_list (map f ks)"
      by (rule arg_cong)
    then show ?thesis using True assms(2) by simp
  next
    case False
    then have "g k = f k" by (rule assms(3))
    then show ?thesis using Cons by simp
  qed
qed

lemma length_update_le: "length (AList.update k v al) \<le> Suc (length al)"
  by (induction al) auto

lemma count_inv_step:
  assumes inv: "count_inv ks i j D C st" and ks: "distinct ks"
      and i: "i < length D" and j: "j < length C"
      and o: "owes_of st' = (owes_of st)(x := AList.update c a (owes_of st x))"
      and b: "owed_by_of st' = (owed_by_of st)(y := AList.update e a (owed_by_of st y))"
  shows "count_inv ks (i_after D C i j) (j_after D C i j) (debtors_after D C i j)
           (creditors_after D C i j) st'"
proof -
  let ?n = "length D + length C - 1"
  have moved: "i + j + 1 \<le> i_after D C i j + j_after D C i j"
    by (rule cursor_moves)
  have room: "i + j + 1 \<le> ?n"
    using i j by simp
  have "sum_list (map (\<lambda>k. length (owes_of st' k)) ks)
          \<le> sum_list (map (\<lambda>k. length (owes_of st k)) ks) + 1"
    by (rule sum_list_map_upd_le [OF ks, of _ x]) (simp_all add: o length_update_le)
  moreover have "sum_list (map (\<lambda>k. length (owes_of st k)) ks) \<le> i + j"
    using inv i j by (simp add: count_inv_def)
  ultimately have 1: "sum_list (map (\<lambda>k. length (owes_of st' k)) ks)
                        \<le> min (i_after D C i j + j_after D C i j) ?n"
    using moved room by simp
  have "sum_list (map (\<lambda>k. length (owed_by_of st' k)) ks)
          \<le> sum_list (map (\<lambda>k. length (owed_by_of st k)) ks) + 1"
    by (rule sum_list_map_upd_le [OF ks, of _ y]) (simp_all add: b length_update_le)
  moreover have "sum_list (map (\<lambda>k. length (owed_by_of st k)) ks) \<le> i + j"
    using inv i j by (simp add: count_inv_def)
  ultimately have 2: "sum_list (map (\<lambda>k. length (owed_by_of st' k)) ks)
                        \<le> min (i_after D C i j + j_after D C i j) ?n"
    using moved room by simp
  from 1 2 show ?thesis
    by (simp add: count_inv_def)
qed

lemma init_settlements_keys_distinct:
  "distinct (map fst (init_settlements us))"
  unfolding init_settlements_def
  using fold_update_distinct [of "[]" "\<lambda>k. \<lparr>owes = [], owed_by = []\<rparr>" us] by simp

lemma init_settlements_eq_map:
  "distinct (map u_id us) \<Longrightarrow>
   init_settlements us = map (\<lambda>user. (u_id user, \<lparr>owes = [], owed_by = []\<rparr>)) us"
  unfolding init_settlements_def
  using fold_update_append [of us "[]" "\<lambda>k. \<lparr>owes = [], owed_by = []\<rparr>"] by simp

lemma query_group_users_distinct:
  "distinct (map u_id (tbl_users d)) \<Longrightarrow> distinct (map u_id (query_group_users group_id d))"
  by (simp add: query_group_users_def distinct_map_filter)

lemma settle_loop_count:
  "\<exists>st'. settle_loop 0 0 (group_debtors group_id d) (group_creditors group_id d)
           (init_settlements (query_group_users group_id d)) = Inr st'
         \<and> map fst st' = map fst (init_settlements (query_group_users group_id d))
         \<and> sum_list (map (\<lambda>k. length (owes_of st' k))
              (map fst (init_settlements (query_group_users group_id d))))
             \<le> length (group_debtors group_id d) + length (group_creditors group_id d) - 1
         \<and> sum_list (map (\<lambda>k. length (owed_by_of st' k))
              (map fst (init_settlements (query_group_users group_id d))))
             \<le> length (group_debtors group_id d) + length (group_creditors group_id d) - 1"
proof -
  let ?dids = "map fst (group_debtors group_id d)"
  let ?cids = "map fst (group_creditors group_id d)"
  let ?ks = "map fst (init_settlements (query_group_users group_id d))"
  have "\<exists>st' i' j' D' C'.
          settle_loop 0 0 (group_debtors group_id d) (group_creditors group_id d)
            (init_settlements (query_group_users group_id d)) = Inr st'
          \<and> keys_inv ?dids ?cids ?ks D' C' st'
          \<and> count_inv ?ks i' j' D' C' st' \<and> \<not> (i' < length D' \<and> j' < length C')"
  proof (rule settle_loop_keys_rule [where J = "count_inv ?ks"])
    show "keys_inv ?dids ?cids ?ks (group_debtors group_id d) (group_creditors group_id d)
            (init_settlements (query_group_users group_id d))"
      by (rule group_keys_inv)
  next
    show "count_inv ?ks 0 0 (group_debtors group_id d) (group_creditors group_id d)
            (init_settlements (query_group_users group_id d))"
      by (simp add: count_inv_def)
  next
    fix i j D C st st'
    assume "count_inv ?ks i j D C st" "i < length D" "j < length C"
       and "owes_of st' =
              (owes_of st)(fst (D ! i) :=
                 AList.update (fst (C ! j)) (settle_amt_of D C i j) (owes_of st (fst (D ! i))))"
       and "owed_by_of st' =
              (owed_by_of st)(fst (C ! j) :=
                 AList.update (fst (D ! i)) (settle_amt_of D C i j) (owed_by_of st (fst (C ! j))))"
    then show "count_inv ?ks (i_after D C i j) (j_after D C i j) (debtors_after D C i j)
                 (creditors_after D C i j) st'"
      by (intro count_inv_step init_settlements_keys_distinct)
  qed
  then obtain st' i' j' D' C' where
    loop: "settle_loop 0 0 (group_debtors group_id d) (group_creditors group_id d)
             (init_settlements (query_group_users group_id d)) = Inr st'"
    and k: "keys_inv ?dids ?cids ?ks D' C' st'"
    and c: "count_inv ?ks i' j' D' C' st'"
    by blast
  from k have "length D' = length (group_debtors group_id d)"
              "length C' = length (group_creditors group_id d)"
    unfolding keys_inv_def by (metis length_map)+
  with c loop k show ?thesis
    by (auto simp: count_inv_def keys_inv_def)
qed

text \<open>
  Claim C5. With the primary key of the user table unique, the computation returns, and
  the number of settlements in its result is at most \<open>len(debtors) + len(creditors) - 1\<close>
  when both lists are non-empty, and 0 when one of them is empty. The bound holds of the
  transfers counted at their payers and of the transfers counted at their receivers.
\<close>

theorem settlement_count_bound:
  assumes "distinct (map u_id (tbl_users d))"
  shows "\<exists>balances.
           calculate_group_balances group_id d = Inr balances
           \<and> (if group_debtors group_id d \<noteq> [] \<and> group_creditors group_id d \<noteq> []
              then settlement_count balances
                     \<le> length (group_debtors group_id d) + length (group_creditors group_id d) - 1
                   \<and> received_count balances
                     \<le> length (group_debtors group_id d) + length (group_creditors group_id d) - 1
              else settlement_count balances = 0 \<and> received_count balances = 0)"
proof -
  let ?us = "query_group_users group_id d"
  have ks: "map fst (init_settlements ?us) = map u_id ?us"
    using assms by (simp add: init_settlements_eq_map query_group_users_distinct comp_def)
  show ?thesis
  proof (cases "group_debtors group_id d \<noteq> [] \<and> group_creditors group_id d \<noteq> []")
    case True
    from settle_loop_count [of group_id d] obtain st' where
      loop: "settle_loop 0 0 (group_debtors group_id d) (group_creditors group_id d)
               (init_settlements ?us) = Inr st'"
      and keys: "map fst st' = map fst (init_settlements ?us)"
      and o: "sum_list (map (\<lambda>k. length (owes_of st' k)) (map fst (init_settlements ?us)))
                \<le> length (group_debtors group_id d) + length (group_creditors group_id d) - 1"
      and b: "sum_list (map (\<lambda>k. length (owed_by_of st' k)) (map fst (init_settlements ?us)))
                \<le> length (group_debtors group_id d) + length (group_creditors group_id d) - 1"
      by blast
    from o b show ?thesis
      unfolding balances_of_settled [OF loop keys]
      by (simp add: True settlement_count_def received_count_def ks comp_def)
  next
    case False
    then have loop: "settle_loop 0 0 (group_debtors group_id d) (group_creditors group_id d)
                       (init_settlements ?us) = Inr (init_settlements ?us)"
      by (intro settle_loop_done) auto
    show ?thesis
      unfolding balances_of_settled [OF loop refl]
      using False by (simp add: settlement_count_def received_count_def comp_def)
  qed
qed

text \<open>
  In the scenario there are two debtors and one creditor, and two settlements.
\<close>

theorem settlement_count_bound_witness:
  "length (group_debtors 1 scenario_db) = 2 \<and> length (group_creditors 1 scenario_db) = 1
   \<and> (\<exists>balances. calculate_group_balances 1 scenario_db = Inr balances
         \<and> settlement_count balances \<le> 2 \<and> received_count balances \<le> 2)"
proof -
  have u: "distinct (map u_id (tbl_users scenario_db))"
    by code_simp
  have dl: "group_debtors 1 scenario_db = [(2, - 10), (3, - 40)]"
    by code_simp
  have cl: "group_creditors 1 scenario_db = [(1, 50)]"
    by code_simp
  show ?thesis
    using settlement_count_bound [OF u, of 1] by (simp add: dl cl numeral_2_eq_2)
qed

section \<open>The settlements clear the balances\<close>

subsection \<open>Whole cents\<close>

lemma cents_py_round: "cents (py_round x 2)"
  by (simp add: cents_def py_round_def)

lemma cents_add: "cents x \<Longrightarrow> cents y \<Longrightarrow> cents (x + y)"
  by (simp add: cents_def distrib_right)

lemma cents_diff: "cents x \<Longrightarrow> cents y \<Longrightarrow> cents (x - y)"
  by (simp add: cents_def left_diff_distrib)

lemma cents_minus: "cents x \<Longrightarrow> cents (- x)"
  by (simp add: cents_def)

lemma cents_small_zero:
  assumes "cents x" and "\<bar>x\<bar> < 1 / 100"
  shows "x = 0"
proof (rule ccontr)
  assume "x \<noteq> 0"
  then have "x * 100 \<noteq> 0" by simp
  with assms(1) have "1 \<le> \<bar>x * 100\<bar>"
    unfolding cents_def by (rule Ints_nonzero_abs_ge1)
  then have "1 / 100 \<le> \<bar>x\<bar>"
    by (simp add: abs_mult)
  with assms(2) show False by simp
qed

subsection \<open>Sums\<close>

lemma sum_list_snd_update:
  fixes xs :: "(int \<times> rat) list"
  shows "k < length xs \<Longrightarrow>
         sum_list (map snd (xs[k := (u, v)])) = sum_list (map snd xs) - snd (xs ! k) + v"
proof (induction xs arbitrary: k)
  case Nil
  then show ?case by simp
next
  case (Cons x xs)
  then show ?case by (cases k) simp_all
qed

lemma sum_list_snd_update_fresh:
  fixes al :: "(int \<times> rat) list"
  shows "c \<notin> fst ` set al \<Longrightarrow>
         sum_list (map snd (AList.update c a al)) = sum_list (map snd al) + a"
  by (simp add: update_absent)

lemma nonneg_le_sum_list:
  fixes xs :: "rat list"
  assumes "\<And>x. x \<in> set xs \<Longrightarrow> 0 \<le> x" and "y \<in> set xs"
  shows "y \<le> sum_list xs"
  using assms
proof (induction xs)
  case Nil
  then show ?case by simp
next
  case (Cons x xs)
  have nn: "0 \<le> sum_list xs"
    using Cons.prems(1) by (intro sum_list_nonneg) simp
  show ?case
  proof (cases "y = x")
    case True
    with nn show ?thesis by simp
  next
    case False
    with Cons.prems have "y \<in> set xs" by simp
    with Cons.IH Cons.prems(1) have "y \<le> sum_list xs" by simp
    moreover have "0 \<le> x" using Cons.prems(1) by simp
    ultimately show ?thesis by simp
  qed
qed

lemma nonpos_ge_sum_list:
  fixes xs :: "rat list"
  assumes "\<And>x. x \<in> set xs \<Longrightarrow> x \<le> 0" and "y \<in> set xs"
  shows "sum_list xs \<le> y"
proof -
  have "- y \<le> sum_list (map uminus xs)"
    using assms by (intro nonneg_le_sum_list) auto
  moreover have "sum_list (map uminus xs) = - sum_list xs"
    by (induction xs) simp_all
  ultimately show ?thesis by simp
qed

lemma all_zero_sum_list:
  fixes xs :: "rat list"
  shows "(\<And>x. x \<in> set xs \<Longrightarrow> x = 0) \<Longrightarrow> sum_list xs = 0"
  by (induction xs) simp_all

lemma distinct_nth_notin_take:
  "distinct xs \<Longrightarrow> j < length xs \<Longrightarrow> xs ! j \<notin> set (take j xs)"
  by (auto simp: in_set_conv_nth nth_eq_iff_index_eq)

lemma take_Suc_subset: "set (take j xs) \<subseteq> set (take (Suc j) xs)"
  by (rule set_take_subset_set_take) simp

lemma nth_in_take_Suc: "j < length xs \<Longrightarrow> xs ! j \<in> set (take (Suc j) xs)"
  by (simp add: take_Suc_conv_app_nth)

subsection \<open>One iteration keeps the invariants\<close>

lemma settle_amt_facts:
  assumes "snd (D ! i) \<le> 0" and "0 \<le> snd (C ! j)"
      and "cents (snd (D ! i))" and "cents (snd (C ! j))"
  shows "cents (settle_amt_of D C i j)"
    and "snd (D ! i) + settle_amt_of D C i j \<le> 0"
    and "0 \<le> snd (C ! j) - settle_amt_of D C i j"
  using assms by (auto simp: settle_amt_of_def min_def cents_minus)

lemma amounts_inv_step:
  assumes inv: "amounts_inv i j D C" and i: "i < length D" and j: "j < length C"
  shows "amounts_inv (i_after D C i j) (j_after D C i j) (debtors_after D C i j)
           (creditors_after D C i j)"
proof -
  let ?a = "settle_amt_of D C i j"
  from inv i j have di: "cents (snd (D ! i))" "snd (D ! i) \<le> 0"
    and cj: "cents (snd (C ! j))" "0 \<le> snd (C ! j)"
    by (simp_all add: amounts_inv_def)
  note a = settle_amt_facts [OF di(2) cj(2) di(1) cj(1)]
  have d': "cents (snd (D ! i) + ?a)"
    using di(1) a(1) by (rule cents_add)
  have c': "cents (snd (C ! j) - ?a)"
    using cj(1) a(1) by (rule cents_diff)
  have dz: "snd (D ! i) + ?a = 0" if "i_after D C i j = i + 1"
  proof -
    have "\<bar>snd (D ! i) + ?a\<bar> < 1 / 100"
    proof (rule ccontr)
      assume n: "\<not> \<bar>snd (D ! i) + ?a\<bar> < 1 / 100"
      have "i_after D C i j = i"
        unfolding i_after_def by (simp only: n if_False)
      with that show False by simp
    qed
    with d' show ?thesis by (rule cents_small_zero)
  qed
  have cz: "snd (C ! j) - ?a = 0" if "j_after D C i j = j + 1"
  proof -
    have "\<bar>snd (C ! j) - ?a\<bar> < 1 / 100"
    proof (rule ccontr)
      assume n: "\<not> \<bar>snd (C ! j) - ?a\<bar> < 1 / 100"
      have "j_after D C i j = j"
        unfolding j_after_def by (simp only: n if_False)
      with that show False by simp
    qed
    with c' show ?thesis by (rule cents_small_zero)
  qed
  have ib: "i_after D C i j = i \<or> i_after D C i j = i + 1"
    by (simp add: i_after_def)
  have jb: "j_after D C i j = j \<or> j_after D C i j = j + 1"
    by (simp add: j_after_def)
  have D: "cents (snd (debtors_after D C i j ! k)) \<and> snd (debtors_after D C i j ! k) \<le> 0
           \<and> (k < i_after D C i j \<longrightarrow> snd (debtors_after D C i j ! k) = 0)"
    if "k < length D" for k
  proof (cases "k = i")
    case True
    then show ?thesis
      using i d' a(2) dz ib by (auto simp: debtors_after_def)
  next
    case False
    then show ?thesis
      using inv that ib by (auto simp: debtors_after_def amounts_inv_def)
  qed
  have C: "cents (snd (creditors_after D C i j ! k)) \<and> 0 \<le> snd (creditors_after D C i j ! k)
           \<and> (k < j_after D C i j \<longrightarrow> snd (creditors_after D C i j ! k) = 0)"
    if "k < length C" for k
  proof (cases "k = j")
    case True
    then show ?thesis
      using j c' a(3) cz jb by (auto simp: creditors_after_def)
  next
    case False
    then show ?thesis
      using inv that jb by (auto simp: creditors_after_def amounts_inv_def)
  qed
  have "i_after D C i j \<le> length D" "j_after D C i j \<le> length C"
    using i j ib jb by auto
  with D C show ?thesis
    by (simp add: amounts_inv_def)
qed

lemma conservation_step:
  assumes "i < length D" and "j < length C"
  shows "sum_list (map snd (debtors_after D C i j)) + sum_list (map snd (creditors_after D C i j))
         = sum_list (map snd D) + sum_list (map snd C)"
  using assms by (simp add: debtors_after_def creditors_after_def sum_list_snd_update)
lemma fresh_inv_step:
  assumes inv: "fresh_inv dids cids i j st"
      and dd: "distinct dids" and dc: "distinct cids"
      and i: "i < length dids" and j: "j < length cids"
      and i': "i' = i \<or> i' = i + 1" and j': "j' = j \<or> j' = j + 1"
      and moved: "i + j + 1 \<le> i' + j'"
      and o: "owes_of st' = (owes_of st)(dids ! i := AList.update (cids ! j) a (owes_of st (dids ! i)))"
      and b: "owed_by_of st' =
                (owed_by_of st)(cids ! j := AList.update (dids ! i) a (owed_by_of st (cids ! j)))"
  shows "fresh_inv dids cids i' j' st'"
proof -
  have jj: "set (take j cids) \<subseteq> set (take j' cids)"
    using j' take_Suc_subset [of j cids] by auto
  have ii: "set (take i dids) \<subseteq> set (take i' dids)"
    using i' take_Suc_subset [of i dids] by auto
  have 1: "fst ` set (owes_of st' (dids ! k)) \<subseteq> set (take j' cids)"
    if k: "i' \<le> k" "k < length dids" for k
  proof (cases "k = i")
    case True
    with k i' have "i' = i" by auto
    with moved j' have "j' = j + 1" by auto
    have "fst ` set (owes_of st (dids ! i)) \<subseteq> set (take j cids)"
      using inv i unfolding fresh_inv_def by blast
    then have "fst ` set (owes_of st' (dids ! i)) \<subseteq> insert (cids ! j) (set (take j cids))"
      by (auto simp: o dom_update)
    also have "\<dots> \<subseteq> set (take (Suc j) cids)"
      using nth_in_take_Suc [OF j] take_Suc_subset [of j cids] by auto
    finally show ?thesis
      using True \<open>j' = j + 1\<close> by simp
  next
    case False
    with dd i k have "dids ! k \<noteq> dids ! i"
      by (simp add: nth_eq_iff_index_eq)
    then have "owes_of st' (dids ! k) = owes_of st (dids ! k)"
      by (simp add: o)
    moreover have "i \<le> k" using k i' by auto
    then have "fst ` set (owes_of st (dids ! k)) \<subseteq> set (take j cids)"
      using inv k unfolding fresh_inv_def by blast
    ultimately show ?thesis using jj by auto
  qed
  have 2: "fst ` set (owed_by_of st' (cids ! k)) \<subseteq> set (take i' dids)"
    if k: "j' \<le> k" "k < length cids" for k
  proof (cases "k = j")
    case True
    with k j' have "j' = j" by auto
    with moved i' have "i' = i + 1" by auto
    have "fst ` set (owed_by_of st (cids ! j)) \<subseteq> set (take i dids)"
      using inv j unfolding fresh_inv_def by blast
    then have "fst ` set (owed_by_of st' (cids ! j)) \<subseteq> insert (dids ! i) (set (take i dids))"
      by (auto simp: b dom_update)
    also have "\<dots> \<subseteq> set (take (Suc i) dids)"
      using nth_in_take_Suc [OF i] take_Suc_subset [of i dids] by auto
    finally show ?thesis
      using True \<open>i' = i + 1\<close> by simp
  next
    case False
    with dc j k have "cids ! k \<noteq> cids ! j"
      by (simp add: nth_eq_iff_index_eq)
    then have "owed_by_of st' (cids ! k) = owed_by_of st (cids ! k)"
      by (simp add: b)
    moreover have "j \<le> k" using k j' by auto
    then have "fst ` set (owed_by_of st (cids ! k)) \<subseteq> set (take i dids)"
      using inv k unfolding fresh_inv_def by blast
    ultimately show ?thesis using ii by auto
  qed
  from 1 2 show ?thesis
    unfolding fresh_inv_def by blast
qed

lemma link_inv_step:
  assumes inv: "link_inv D0 C0 D C st"
      and fresh: "fresh_inv (map fst D0) (map fst C0) i j st"
      and kd: "map fst D = map fst D0" and kc: "map fst C = map fst C0"
      and dd: "distinct (map fst D0)" and dc: "distinct (map fst C0)"
      and i: "i < length D" and j: "j < length C"
      and o: "owes_of st' =
                (owes_of st)(fst (D ! i) := AList.update (fst (C ! j)) a (owes_of st (fst (D ! i))))"
      and b: "owed_by_of st' =
                (owed_by_of st)(fst (C ! j) :=
                   AList.update (fst (D ! i)) a (owed_by_of st (fst (C ! j))))"
      and a: "a = settle_amt_of D C i j"
  shows "link_inv D0 C0 (debtors_after D C i j) (creditors_after D C i j) st'"
proof -
  have ld: "length D = length D0" and lc: "length C = length C0"
    using kd kc by (metis length_map)+
  have fd: "fst (D ! k) = fst (D0 ! k)" if "k < length D0" for k
    using kd that ld by (metis nth_map)
  have fc: "fst (C ! k) = fst (C0 ! k)" if "k < length C0" for k
    using kc that lc by (metis nth_map)
  have i0: "i < length D0" and j0: "j < length C0"
    using i j ld lc by simp_all
  have di: "map fst D0 ! i = fst (D0 ! i)" and cj: "map fst C0 ! j = fst (C0 ! j)"
    using i0 j0 by simp_all
  have "fst ` set (owes_of st (fst (D0 ! i))) \<subseteq> set (take j (map fst C0))"
    using fresh i0 di unfolding fresh_inv_def by (metis length_map order_refl)
  moreover have "fst (C0 ! j) \<notin> set (take j (map fst C0))"
    using distinct_nth_notin_take [OF dc, of j] j0 cj by simp
  ultimately have fresh_o: "fst (C0 ! j) \<notin> fst ` set (owes_of st (fst (D0 ! i)))"
    by blast
  have "fst ` set (owed_by_of st (fst (C0 ! j))) \<subseteq> set (take i (map fst D0))"
    using fresh j0 cj unfolding fresh_inv_def by (metis length_map order_refl)
  moreover have "fst (D0 ! i) \<notin> set (take i (map fst D0))"
    using distinct_nth_notin_take [OF dd, of i] i0 di by simp
  ultimately have fresh_b: "fst (D0 ! i) \<notin> fst ` set (owed_by_of st (fst (C0 ! j)))"
    by blast
  have 1: "snd (debtors_after D C i j ! k) =
             snd (D0 ! k) + sum_list (map snd (owes_of st' (fst (D0 ! k))))"
    if k: "k < length D0" for k
  proof (cases "k = i")
    case True
    have "snd (D ! i) = snd (D0 ! i) + sum_list (map snd (owes_of st (fst (D0 ! i))))"
      using inv i0 unfolding link_inv_def by blast
    moreover have "owes_of st' (fst (D0 ! i)) =
                     AList.update (fst (C0 ! j)) a (owes_of st (fst (D0 ! i)))"
      by (simp add: o fd [OF i0] fc [OF j0])
    ultimately show ?thesis
      using True i fresh_o by (simp add: debtors_after_def a sum_list_snd_update_fresh)
  next
    case False
    have "fst (D0 ! k) \<noteq> fst (D0 ! i)"
      using dd k i0 False by (metis distinct_conv_nth length_map nth_map)
    then have "owes_of st' (fst (D0 ! k)) = owes_of st (fst (D0 ! k))"
      by (simp add: o fd [OF i0])
    moreover have "snd (D ! k) = snd (D0 ! k) + sum_list (map snd (owes_of st (fst (D0 ! k))))"
      using inv k unfolding link_inv_def by blast
    ultimately show ?thesis
      using False by (simp add: debtors_after_def)
  qed
  have 2: "snd (creditors_after D C i j ! k) =
             snd (C0 ! k) - sum_list (map snd (owed_by_of st' (fst (C0 ! k))))"
    if k: "k < length C0" for k
  proof (cases "k = j")
    case True
    have "snd (C ! j) = snd (C0 ! j) - sum_list (map snd (owed_by_of st (fst (C0 ! j))))"
      using inv j0 unfolding link_inv_def by blast
    moreover have "owed_by_of st' (fst (C0 ! j)) =
                     AList.update (fst (D0 ! i)) a (owed_by_of st (fst (C0 ! j)))"
      by (simp add: b fd [OF i0] fc [OF j0])
    ultimately show ?thesis
      using True j fresh_b by (simp add: creditors_after_def a sum_list_snd_update_fresh)
  next
    case False
    have "fst (C0 ! k) \<noteq> fst (C0 ! j)"
      using dc k j0 False by (metis distinct_conv_nth length_map nth_map)
    then have "owed_by_of st' (fst (C0 ! k)) = owed_by_of st (fst (C0 ! k))"
      by (simp add: b fc [OF j0])
    moreover have "snd (C ! k) = snd (C0 ! k) - sum_list (map snd (owed_by_of st (fst (C0 ! k))))"
      using inv k unfolding link_inv_def by blast
    ultimately show ?thesis
      using False by (simp add: creditors_after_def)
  qed
  from 1 2 show ?thesis
    unfolding link_inv_def by blast
qed
subsection \<open>The loop from its first state\<close>

lemma settle_loop_clears:
  assumes keys: "keys_inv (map fst D0) (map fst C0) ks D0 C0 st0"
      and dd: "distinct (map fst D0)" and dc: "distinct (map fst C0)"
      and empty: "\<And>u. owes_of st0 u = []" "\<And>u. owed_by_of st0 u = []"
      and d0: "\<And>p. p \<in> set D0 \<Longrightarrow> cents (snd p) \<and> snd p \<le> 0"
      and c0: "\<And>p. p \<in> set C0 \<Longrightarrow> cents (snd p) \<and> 0 \<le> snd p"
      and s: "\<bar>sum_list (map snd D0) + sum_list (map snd C0)\<bar> \<le> 1 / 100"
  shows "\<exists>st'. settle_loop 0 0 D0 C0 st0 = Inr st' \<and> map fst st' = ks
           \<and> roles_inv (map fst D0) (map fst C0) st'
           \<and> (\<forall>k < length D0.
                 \<bar>snd (D0 ! k) + sum_list (map snd (owes_of st' (fst (D0 ! k))))\<bar> \<le> 1 / 100)
           \<and> (\<forall>k < length C0.
                 \<bar>snd (C0 ! k) - sum_list (map snd (owed_by_of st' (fst (C0 ! k))))\<bar> \<le> 1 / 100)"
proof -
  let ?dids = "map fst D0" and ?cids = "map fst C0"
  let ?s0 = "sum_list (map snd D0) + sum_list (map snd C0)"
  let ?J = "\<lambda>i j D C st.
              amounts_inv i j D C \<and> fresh_inv ?dids ?cids i j st \<and> link_inv D0 C0 D C st
              \<and> roles_inv ?dids ?cids st
              \<and> sum_list (map snd D) + sum_list (map snd C) = ?s0"
  have "\<exists>st' i' j' D' C'. settle_loop 0 0 D0 C0 st0 = Inr st'
          \<and> keys_inv ?dids ?cids ks D' C' st' \<and> ?J i' j' D' C' st'
          \<and> \<not> (i' < length D' \<and> j' < length C')"
  proof (rule settle_loop_keys_rule [where J = ?J])
    show "keys_inv ?dids ?cids ks D0 C0 st0" by (rule keys)
  next
    have "amounts_inv 0 0 D0 C0"
      using d0 c0 by (simp add: amounts_inv_def)
    moreover have "fresh_inv ?dids ?cids 0 0 st0"
      by (simp add: fresh_inv_def empty)
    moreover have "link_inv D0 C0 D0 C0 st0"
      by (simp add: link_inv_def empty)
    moreover have "roles_inv ?dids ?cids st0"
      by (simp add: roles_inv_def empty)
    ultimately show "?J 0 0 D0 C0 st0" by simp
  next
    fix i j D C st st'
    assume k: "keys_inv ?dids ?cids ks D C st" and J: "?J i j D C st"
       and i: "i < length D" and j: "j < length C"
       and o: "owes_of st' =
                 (owes_of st)(fst (D ! i) :=
                    AList.update (fst (C ! j)) (settle_amt_of D C i j) (owes_of st (fst (D ! i))))"
       and b: "owed_by_of st' =
                 (owed_by_of st)(fst (C ! j) :=
                    AList.update (fst (D ! i)) (settle_amt_of D C i j)
                      (owed_by_of st (fst (C ! j))))"
    from k have kd: "map fst D = ?dids" and kc: "map fst C = ?cids"
      by (simp_all add: keys_inv_def)
    have id: "i < length ?dids" and jc: "j < length ?cids"
      using i j kd kc by (metis length_map)+
    have fi: "?dids ! i = fst (D ! i)" and fj: "?cids ! j = fst (C ! j)"
      using i j kd kc by (metis nth_map)+
    have A: "amounts_inv (i_after D C i j) (j_after D C i j) (debtors_after D C i j)
               (creditors_after D C i j)"
      using J i j by (intro amounts_inv_step) simp_all
    have F: "fresh_inv ?dids ?cids (i_after D C i j) (j_after D C i j) st'"
    proof (rule fresh_inv_step [where i = i and j = j and st = st
                                  and a = "settle_amt_of D C i j"])
      show "fresh_inv ?dids ?cids i j st" using J by simp
      show "i_after D C i j = i \<or> i_after D C i j = i + 1" by (simp add: i_after_def)
      show "j_after D C i j = j \<or> j_after D C i j = j + 1" by (simp add: j_after_def)
      show "i + j + 1 \<le> i_after D C i j + j_after D C i j" by (rule cursor_moves)
      show "owes_of st' = (owes_of st)(?dids ! i :=
              AList.update (?cids ! j) (settle_amt_of D C i j) (owes_of st (?dids ! i)))"
        unfolding fi fj by (rule o)
      show "owed_by_of st' = (owed_by_of st)(?cids ! j :=
              AList.update (?dids ! i) (settle_amt_of D C i j) (owed_by_of st (?cids ! j)))"
        unfolding fi fj by (rule b)
    qed (rule dd dc id jc)+
    have L: "link_inv D0 C0 (debtors_after D C i j) (creditors_after D C i j) st'"
      using J kd kc dd dc i j o b by (intro link_inv_step [where st = st]) simp_all
    have R: "roles_inv ?dids ?cids st'"
      using roles_inv_step [of D C st i j st', OF _ i j o b] J kd kc by simp
    have S: "sum_list (map snd (debtors_after D C i j))
               + sum_list (map snd (creditors_after D C i j)) = ?s0"
      using J conservation_step [OF i j] by simp
    from A F L R S
    show "?J (i_after D C i j) (j_after D C i j) (debtors_after D C i j)
            (creditors_after D C i j) st'"
      by simp
  qed
  then obtain st' i' j' D' C' where
    loop: "settle_loop 0 0 D0 C0 st0 = Inr st'"
    and k: "keys_inv ?dids ?cids ks D' C' st'"
    and A: "amounts_inv i' j' D' C'"
    and L: "link_inv D0 C0 D' C' st'"
    and R: "roles_inv ?dids ?cids st'"
    and S: "sum_list (map snd D') + sum_list (map snd C') = ?s0"
    and stop: "\<not> (i' < length D' \<and> j' < length C')"
    by blast
  from k have ld: "length D' = length D0" and lc: "length C' = length C0"
    unfolding keys_inv_def by (metis length_map)+
  have dn: "snd p \<le> 0" if "p \<in> set D'" for p
    using A that unfolding amounts_inv_def by (metis in_set_conv_nth)
  have cn: "0 \<le> snd p" if "p \<in> set C'" for p
    using A that unfolding amounts_inv_def by (metis in_set_conv_nth)
  have bound: "(\<forall>k < length D'. \<bar>snd (D' ! k)\<bar> \<le> 1 / 100)
               \<and> (\<forall>k < length C'. \<bar>snd (C' ! k)\<bar> \<le> 1 / 100)"
  proof (cases "i' < length D'")
    case False
    with A have z: "snd (D' ! k) = 0" if "k < length D'" for k
      using that unfolding amounts_inv_def by (metis leD le_neq_implies_less order_less_le_trans)
    then have "x = 0" if "x \<in> set (map snd D')" for x
      using that by (metis in_set_conv_nth length_map nth_map)
    then have "sum_list (map snd D') = 0"
      by (rule all_zero_sum_list)
    with S have sc: "sum_list (map snd C') = ?s0" by simp
    have "\<bar>snd (C' ! k)\<bar> \<le> 1 / 100" if "k < length C'" for k
    proof -
      have "snd (C' ! k) \<in> set (map snd C')" using that by simp
      then have "snd (C' ! k) \<le> sum_list (map snd C')"
        using cn by (intro nonneg_le_sum_list) auto
      moreover have "0 \<le> snd (C' ! k)" using cn that by simp
      ultimately show ?thesis using sc s by simp
    qed
    with z show ?thesis by simp
  next
    case True
    with stop have "\<not> j' < length C'" by simp
    with A have z: "snd (C' ! k) = 0" if "k < length C'" for k
      using that unfolding amounts_inv_def by (metis leD le_neq_implies_less order_less_le_trans)
    then have "x = 0" if "x \<in> set (map snd C')" for x
      using that by (metis in_set_conv_nth length_map nth_map)
    then have "sum_list (map snd C') = 0"
      by (rule all_zero_sum_list)
    with S have sd: "sum_list (map snd D') = ?s0" by simp
    have "\<bar>snd (D' ! k)\<bar> \<le> 1 / 100" if "k < length D'" for k
    proof -
      have "snd (D' ! k) \<in> set (map snd D')" using that by simp
      then have "sum_list (map snd D') \<le> snd (D' ! k)"
        using dn by (intro nonpos_ge_sum_list) auto
      moreover have "snd (D' ! k) \<le> 0" using dn that by simp
      ultimately show ?thesis using sd s by simp
    qed
    with z show ?thesis by simp
  qed
  have 1: "\<bar>snd (D0 ! k) + sum_list (map snd (owes_of st' (fst (D0 ! k))))\<bar> \<le> 1 / 100"
    if "k < length D0" for k
    using L bound that ld unfolding link_inv_def by metis
  have 2: "\<bar>snd (C0 ! k) - sum_list (map snd (owed_by_of st' (fst (C0 ! k))))\<bar> \<le> 1 / 100"
    if "k < length C0" for k
    using L bound that lc unfolding link_inv_def by metis
  from k have "map fst st' = ks"
    by (simp add: keys_inv_def)
  with loop R 1 2 show ?thesis by blast
qed

subsection \<open>The result of the computation\<close>

lemma sum_partition_balances:
  "sum_list (map snd (snd (partition_balances nb))) + sum_list (map snd (fst (partition_balances nb)))
     = sum_list (map (\<lambda>(user_id, net). py_round net 2) nb)"
  unfolding creditors_eq debtors_eq
  by (induction nb) (auto simp: case_prod_beta)

lemma debtors_member:
  "p \<in> set (snd (partition_balances nb)) \<longleftrightarrow>
     (\<exists>v. (fst p, v) \<in> set nb \<and> py_round v 2 < 0 \<and> snd p = py_round v 2)"
  unfolding debtors_eq by (cases p) auto

lemma creditors_member:
  "p \<in> set (fst (partition_balances nb)) \<longleftrightarrow>
     (\<exists>v. (fst p, v) \<in> set nb \<and> 0 < py_round v 2 \<and> snd p = py_round v 2)"
  unfolding creditors_eq by (cases p) auto



section \<open>The sum of the net balances\<close>

lemma fold_add_at:
  fixes m :: "int \<Rightarrow> rat"
  shows "fold (\<lambda>x m. m(key x := m (key x) + val x)) xs m k =
           m k + sum_list (map val (filter (\<lambda>x. key x = k) xs))"
  by (induction xs arbitrary: m) auto

lemma user_paid_of_eq:
  "user_paid_of es k = sum_list (map e_amount (filter (\<lambda>e. e_paid_by e = k) es))"
  unfolding user_paid_of_def using fold_add_at [of e_paid_by e_amount es "\<lambda>_. 0" k] by simp

lemma user_owes_of_eq:
  "user_owes_of ss k = sum_list (map s_amount (filter (\<lambda>s. s_user_id s = k) ss))"
  unfolding user_owes_of_def using fold_add_at [of s_user_id s_amount ss "\<lambda>_. 0" k] by simp

lemma sum_list_single_key:
  fixes v :: rat
  shows "distinct ks \<Longrightarrow> a \<in> set ks \<Longrightarrow> sum_list (map (\<lambda>k. if a = k then v else 0) ks) = v"
proof (induction ks)
  case Nil
  then show ?case by simp
next
  case (Cons k ks)
  show ?case
  proof (cases "a = k")
    case True
    then have "a \<notin> set ks" using Cons.prems by simp
    then have "map (\<lambda>k. if a = k then v else 0) ks = map (\<lambda>k. 0) ks"
      by (intro map_cong refl) auto
    then have "sum_list (map (\<lambda>k. if a = k then v else 0) ks) = sum_list (map (\<lambda>k. 0) ks)"
      by (rule arg_cong)
    then have "sum_list (map (\<lambda>k. if a = k then v else 0) ks) = 0"
      by (simp only: sum_list_0)
    with True show ?thesis by simp
  next
    case False
    with Cons show ?thesis by simp
  qed
qed

text \<open>Grouping a sum by a key that ranges over a list without repetitions.\<close>

lemma sum_list_by_key:
  fixes val :: "'a \<Rightarrow> rat"
  assumes "distinct ks" and "key ` set xs \<subseteq> set ks"
  shows "sum_list (map (\<lambda>k. sum_list (map val (filter (\<lambda>x. key x = k) xs))) ks)
           = sum_list (map val xs)"
  using assms(2)
proof (induction xs)
  case Nil
  then show ?case by simp
next
  case (Cons x xs)
  have "sum_list (map (\<lambda>k. sum_list (map val (filter (\<lambda>x. key x = k) (x # xs)))) ks)
          = sum_list (map (\<lambda>k. (if key x = k then val x else 0)
                               + sum_list (map val (filter (\<lambda>x. key x = k) xs))) ks)"
    by (intro arg_cong [where f = sum_list] map_cong refl) simp
  also have "\<dots> = sum_list (map (\<lambda>k. if key x = k then val x else 0) ks)
                    + sum_list (map (\<lambda>k. sum_list (map val (filter (\<lambda>x. key x = k) xs))) ks)"
    by (rule sum_list_addf)
  also have "sum_list (map (\<lambda>k. if key x = k then val x else 0) ks) = val x"
    using assms(1) Cons.prems by (intro sum_list_single_key) auto
  also have "sum_list (map (\<lambda>k. sum_list (map val (filter (\<lambda>x. key x = k) xs))) ks)
               = sum_list (map val xs)"
    using Cons by simp
  finally show ?case by simp
qed

lemma abs_sum_list_bound:
  fixes f :: "'a \<Rightarrow> rat"
  assumes "\<And>x. x \<in> set xs \<Longrightarrow> \<bar>f x\<bar> \<le> c"
  shows "\<bar>sum_list (map f xs)\<bar> \<le> of_nat (length xs) * c"
  using assms
proof (induction xs)
  case Nil
  then show ?case by simp
next
  case (Cons x xs)
  have "\<bar>f x + sum_list (map f xs)\<bar> \<le> \<bar>f x\<bar> + \<bar>sum_list (map f xs)\<bar>"
    by (rule abs_triangle_ineq)
  also have "\<dots> \<le> c + of_nat (length xs) * c"
    using Cons by (intro add_mono) simp_all
  finally show ?case by (simp add: distrib_right)
qed

lemma group_expense_splits:
  assumes "e \<in> set (query_expenses group_id d)"
  shows "filter (\<lambda>s. s_expense_id s = e_id e) (query_splits group_id d)
           = filter (\<lambda>s. s_expense_id s = e_id e) (tbl_expense_splits d)"
proof -
  from assms have "e \<in> set (tbl_expenses d)" "e_group_id e = group_id"
    by (simp_all add: query_expenses_def)
  then show ?thesis
    unfolding query_splits_def filter_filter
    by (intro filter_cong refl) (auto simp: list_ex_iff)
qed

lemma group_splits_keys:
  "s_expense_id ` set (query_splits group_id d) \<subseteq> set (map e_id (query_expenses group_id d))"
  by (force simp: query_splits_def query_expenses_def list_ex_iff)

lemma sum_list_diff_map:
  fixes f g :: "'a \<Rightarrow> rat"
  shows "sum_list (map (\<lambda>x. f x - g x) xs) = sum_list (map f xs) - sum_list (map g xs)"
  by (induction xs) simp_all

lemma net_balances_sum:
  assumes users: "distinct (map u_id (tbl_users d))"
      and exps: "distinct (map e_id (tbl_expenses d))"
      and payers: "\<And>e. e \<in> set (query_expenses group_id d) \<Longrightarrow>
                     e_paid_by e \<in> u_id ` set (query_group_users group_id d)"
      and owers: "\<And>s. s \<in> set (query_splits group_id d) \<Longrightarrow>
                    s_user_id s \<in> u_id ` set (query_group_users group_id d)"
  shows "sum_list (map snd (group_net_balances group_id d)) =
           sum_list (map (\<lambda>e. e_amount e - expense_shares_total d e) (query_expenses group_id d))"
proof -
  let ?us = "query_group_users group_id d" and ?es = "query_expenses group_id d"
  let ?ss = "query_splits group_id d"
  have du: "distinct (map u_id ?us)"
    using users by (rule query_group_users_distinct)
  have de: "distinct (map e_id ?es)"
    using exps by (simp add: query_expenses_def distinct_map_filter)
  have "sum_list (map snd (group_net_balances group_id d)) =
          sum_list (map (\<lambda>k. user_paid_of ?es k - user_owes_of ?ss k) (map u_id ?us))"
    by (simp add: group_net_balances_def user_net_balances_eq_map [OF du] comp_def)
  also have "\<dots> = sum_list (map (user_paid_of ?es) (map u_id ?us))
                    - sum_list (map (user_owes_of ?ss) (map u_id ?us))"
    by (rule sum_list_diff_map)
  also have "sum_list (map (user_paid_of ?es) (map u_id ?us)) = sum_list (map e_amount ?es)"
    unfolding user_paid_of_eq [abs_def]
    using du payers by (intro sum_list_by_key) auto
  also have "sum_list (map (user_owes_of ?ss) (map u_id ?us)) = sum_list (map s_amount ?ss)"
    unfolding user_owes_of_eq [abs_def]
    using du owers by (intro sum_list_by_key) auto
  also have "sum_list (map s_amount ?ss) =
               sum_list (map (\<lambda>k. sum_list (map s_amount (filter (\<lambda>s. s_expense_id s = k) ?ss)))
                           (map e_id ?es))"
    using de group_splits_keys [of group_id d] by (intro sum_list_by_key [symmetric]) auto
  also have "\<dots> = sum_list (map (expense_shares_total d) ?es)"
    unfolding map_map comp_def expense_shares_total_def
    by (intro arg_cong [where f = sum_list] map_cong refl) (simp add: group_expense_splits)
  finally show ?thesis
    by (simp add: sum_list_diff_map)
qed




section \<open>The result is a function of the snapshot\<close>



end
